theory Spec2Isabelle
  imports Complex_Main "HOL-Library.Multiset"
begin

section \<open>Python values, errors and list indexing\<close>

text \<open>
  The benchmark of \<^verbatim>\<open>task_3.py\<close> is embedded shallowly. Python integers are
  \<^typ>\<open>int\<close>, Python lists are HOL lists, and every exception the code can raise is a
  value of \<open>py_error\<close>: a computation that may raise returns \<open>py_error + 'a\<close>, with
  \<open>Inl\<close> the exception.
\<close>

datatype py_error =
  IndexError | ValueError | ZeroDivisionError | TypeError | KeyError | OverflowError

text \<open>
  \<^verbatim>\<open>xs[i]\<close> and \<^verbatim>\<open>xs[i] = v\<close>: a negative index counts from the end, an index out
  of range raises \<^verbatim>\<open>IndexError\<close>.
\<close>

definition getitem :: "'a list \<Rightarrow> int \<Rightarrow> py_error + 'a" where
  "getitem xs i =
     (let n = int (length xs); k = (if i < 0 then i + n else i)
      in if 0 \<le> k \<and> k < n then Inr (xs ! nat k) else Inl IndexError)"

definition setitem :: "'a list \<Rightarrow> int \<Rightarrow> 'a \<Rightarrow> py_error + 'a list" where
  "setitem xs i v =
     (let n = int (length xs); k = (if i < 0 then i + n else i)
      in if 0 \<le> k \<and> k < n then Inr (xs[nat k := v]) else Inl IndexError)"

text \<open>
  A \<^verbatim>\<open>for\<close> loop over a sequence that was evaluated once (\<^verbatim>\<open>range(...)\<close>), with a
  body that updates the loop state and may raise: the first exception ends the loop.
\<close>

fun for_each :: "'i list \<Rightarrow> ('i \<Rightarrow> 's \<Rightarrow> py_error + 's) \<Rightarrow> 's \<Rightarrow> py_error + 's" where
  "for_each [] body s = Inr s"
| "for_each (i # rest) body s =
     (case body i s of Inl e \<Rightarrow> Inl e | Inr s' \<Rightarrow> for_each rest body s')"

section \<open>The sorting algorithms\<close>

text \<open>
  The source compares list elements with \<^verbatim>\<open>a[j] > key\<close> and
  \<^verbatim>\<open>left[i] <= right[j]\<close>. Python dispatches these operators on the elements; the
  functions below take the sort key \<open>f\<close> of an element as a parameter, so that elements
  with equal keys can still be told apart. The benchmark sorts lists of integers, which
  are their own keys: \<open>insertion_sort\<close>, \<open>merge_sort\<close> and \<open>timsort_sorted\<close> are the
  instances at \<open>f = (\<lambda>x. x)\<close>.
\<close>

subsection \<open>\<^verbatim>\<open>insertion_sort\<close>\<close>

text \<open>
  \<^verbatim>\<open>
      while j >= 0 and a[j] > key:
          a[j + 1] = a[j]
          j -= 1
  \<close>
  The loop state is the list \<open>a\<close> and the index \<open>j\<close>, which runs down to \<open>-1\<close>.
\<close>

function ins_while :: "('a \<Rightarrow> 'k::linorder) \<Rightarrow> 'a list \<Rightarrow> int \<Rightarrow> 'a \<Rightarrow> py_error + ('a list \<times> int)" where
  "ins_while f a j key =
     (if j \<ge> 0 then
        (case getitem a j of
           Inl e \<Rightarrow> Inl e
         | Inr x \<Rightarrow>
             if f x > f key then
               (case getitem a j of
                  Inl e \<Rightarrow> Inl e
                | Inr y \<Rightarrow>
                    (case setitem a (j + 1) y of
                       Inl e \<Rightarrow> Inl e
                     | Inr a' \<Rightarrow> ins_while f a' (j - 1) key))
             else Inr (a, j))
      else Inr (a, j))"
  by pat_completeness auto
termination
  by (relation "measure (\<lambda>(f, a, j, key). nat (j + 1))") auto

text \<open>
  The body of \<^verbatim>\<open>for i in range(1, len(a))\<close>:
  \<^verbatim>\<open>
      key = a[i]
      j = i - 1
      while ...
      a[j + 1] = key
  \<close>
\<close>

definition ins_body :: "('a \<Rightarrow> 'k::linorder) \<Rightarrow> nat \<Rightarrow> 'a list \<Rightarrow> py_error + 'a list" where
  "ins_body f i a =
     (case getitem a (int i) of
        Inl e \<Rightarrow> Inl e
      | Inr key \<Rightarrow>
          (case ins_while f a (int i - 1) key of
             Inl e \<Rightarrow> Inl e
           | Inr (a', j) \<Rightarrow> setitem a' (j + 1) key))"

text \<open>
  \<^verbatim>\<open>a = arr.copy()\<close>, the loop over \<^verbatim>\<open>range(1, len(a))\<close> (evaluated once, before the
  first iteration), \<^verbatim>\<open>return a\<close>. On values the copy is the list itself; the identity
  of the copy is the subject of the heap model further down.
\<close>

definition insertion_sort_key :: "('a \<Rightarrow> 'k::linorder) \<Rightarrow> 'a list \<Rightarrow> py_error + 'a list" where
  "insertion_sort_key f arr = (let a = arr in for_each [1..<length a] (ins_body f) a)"

definition insertion_sort :: "int list \<Rightarrow> py_error + int list" where
  "insertion_sort arr = insertion_sort_key (\<lambda>x. x) arr"

subsection \<open>\<^verbatim>\<open>_merge\<close> and \<^verbatim>\<open>merge_sort\<close>\<close>

text \<open>
  \<^verbatim>\<open>
      while i < len(left) and j < len(right):
          if left[i] <= right[j]:
              out.append(left[i]); i += 1
          else:
              out.append(right[j]); j += 1
  \<close>
\<close>

function merge_while ::
  "('a \<Rightarrow> 'k::linorder) \<Rightarrow> 'a list \<Rightarrow> 'a list \<Rightarrow> nat \<Rightarrow> nat \<Rightarrow> 'a list \<Rightarrow> py_error + (nat \<times> nat \<times> 'a list)" where
  "merge_while f left right i j out =
     (if i < length left \<and> j < length right then
        (case getitem left (int i) of
           Inl e \<Rightarrow> Inl e
         | Inr x \<Rightarrow>
             (case getitem right (int j) of
                Inl e \<Rightarrow> Inl e
              | Inr y \<Rightarrow>
                  if f x \<le> f y then
                    (case getitem left (int i) of
                       Inl e \<Rightarrow> Inl e
                     | Inr x' \<Rightarrow> merge_while f left right (i + 1) j (out @ [x']))
                  else
                    (case getitem right (int j) of
                       Inl e \<Rightarrow> Inl e
                     | Inr y' \<Rightarrow> merge_while f left right i (j + 1) (out @ [y']))))
      else Inr (i, j, out))"
  by pat_completeness auto
termination
  by (relation "measure (\<lambda>(f, left, right, i, j, out). (length left - i) + (length right - j))") auto

text \<open>
  \<^verbatim>\<open>_merge\<close>: the loop from \<^verbatim>\<open>i = j = 0\<close>, \<^verbatim>\<open>out = []\<close>, then the rest of whichever
  list is not exhausted (\<^verbatim>\<open>out.extend(left[i:])\<close>, \<^verbatim>\<open>out.extend(right[j:])\<close>).
\<close>

definition private_merge_key :: "('a \<Rightarrow> 'k::linorder) \<Rightarrow> 'a list \<Rightarrow> 'a list \<Rightarrow> py_error + 'a list" where
  "private_merge_key f left right =
     (case merge_while f left right 0 0 [] of
        Inl e \<Rightarrow> Inl e
      | Inr (i, j, out) \<Rightarrow>
          (let out1 = (if i < length left then out @ drop i left else out);
               out2 = (if j < length right then out1 @ drop j right else out1)
           in Inr out2))"

function merge_sort_key :: "('a \<Rightarrow> 'k::linorder) \<Rightarrow> 'a list \<Rightarrow> py_error + 'a list" where
  "merge_sort_key f arr =
     (let n = length arr in
      if n \<le> 1 then Inr arr
      else
        (let mid = n div 2 in
         case merge_sort_key f (take mid arr) of
           Inl e \<Rightarrow> Inl e
         | Inr left \<Rightarrow>
             (case merge_sort_key f (drop mid arr) of
                Inl e \<Rightarrow> Inl e
              | Inr right \<Rightarrow> private_merge_key f left right)))"
  by pat_completeness auto
termination
  by (relation "measure (\<lambda>(f, arr). length arr)") auto

definition private_merge :: "int list \<Rightarrow> int list \<Rightarrow> py_error + int list" where
  "private_merge left right = private_merge_key (\<lambda>x. x) left right"

definition merge_sort :: "int list \<Rightarrow> py_error + int list" where
  "merge_sort arr = merge_sort_key (\<lambda>x. x) arr"

subsection \<open>\<^verbatim>\<open>timsort_sorted\<close>\<close>

text \<open>
  \<^verbatim>\<open>sorted(arr)\<close> is the interpreter's built-in: it returns a new list, ascending, and
  the language guarantees that it is stable. \<^const>\<open>sort_key\<close> is the stable sort of
  HOL; a stable sort is determined by its input, so the two agree on every list.
\<close>

definition timsort_sorted_key :: "('a \<Rightarrow> 'k::linorder) \<Rightarrow> 'a list \<Rightarrow> 'a list" where
  "timsort_sorted_key f arr = sort_key f arr"

definition timsort_sorted :: "int list \<Rightarrow> int list" where
  "timsort_sorted arr = timsort_sorted_key (\<lambda>x. x) arr"

section \<open>The sorting algorithms on a heap of list objects\<close>

text \<open>
  A Python list is an object: \<^verbatim>\<open>arr.copy()\<close>, a slice \<^verbatim>\<open>arr[:mid]\<close> and \<^verbatim>\<open>[]\<close>
  create new objects, while \<^verbatim>\<open>a[j + 1] = a[j]\<close>, \<^verbatim>\<open>out.append(x)\<close> and
  \<^verbatim>\<open>out.extend(xs)\<close> change the object they are applied to, for every holder of a
  reference to it. Whether a sort changes the caller's list is a question about these
  identities, so the three sorts are modelled a second time on an explicit store: the
  heap is the list of all list objects allocated so far, a reference is a position in
  it, and allocation appends. The functions below follow the source statement by
  statement, with every read and write addressed by reference.
\<close>

type_synonym 'a heap = "'a list list"
type_synonym ref = nat

definition alloc :: "'a heap \<Rightarrow> 'a list \<Rightarrow> 'a heap \<times> ref" where
  "alloc h xs = (h @ [xs], length h)"

subsection \<open>\<^verbatim>\<open>insertion_sort\<close>\<close>

text \<open>The inner loop: reads \<^verbatim>\<open>a[j]\<close> and writes \<^verbatim>\<open>a[j + 1]\<close> through the reference \<open>a\<close>.\<close>

function ins_while_h :: "('a \<Rightarrow> 'k::linorder) \<Rightarrow> 'a heap \<Rightarrow> ref \<Rightarrow> int \<Rightarrow> 'a \<Rightarrow> py_error + ('a heap \<times> int)" where
  "ins_while_h f h a j key =
     (if j \<ge> 0 then
        (case getitem (h ! a) j of
           Inl e \<Rightarrow> Inl e
         | Inr x \<Rightarrow>
             if f x > f key then
               (case getitem (h ! a) j of
                  Inl e \<Rightarrow> Inl e
                | Inr y \<Rightarrow>
                    (case setitem (h ! a) (j + 1) y of
                       Inl e \<Rightarrow> Inl e
                     | Inr a' \<Rightarrow> ins_while_h f (h[a := a']) a (j - 1) key))
             else Inr (h, j))
      else Inr (h, j))"
  by pat_completeness auto
termination
  by (relation "measure (\<lambda>(f, h, a, j, key). nat (j + 1))") auto

text \<open>The body of the outer loop, on the object \<open>a\<close>.\<close>

definition ins_body_h :: "('a \<Rightarrow> 'k::linorder) \<Rightarrow> ref \<Rightarrow> nat \<Rightarrow> 'a heap \<Rightarrow> py_error + 'a heap" where
  "ins_body_h f a i h =
     (case getitem (h ! a) (int i) of
        Inl e \<Rightarrow> Inl e
      | Inr key \<Rightarrow>
          (case ins_while_h f h a (int i - 1) key of
             Inl e \<Rightarrow> Inl e
           | Inr (h', j) \<Rightarrow>
               (case setitem (h' ! a) (j + 1) key of
                  Inl e \<Rightarrow> Inl e
                | Inr a' \<Rightarrow> Inr (h'[a := a']))))"

text \<open>
  \<^verbatim>\<open>a = arr.copy()\<close> allocates the working copy; the loops run on it; its reference is
  returned.
\<close>

definition insertion_sort_h :: "('a \<Rightarrow> 'k::linorder) \<Rightarrow> 'a heap \<Rightarrow> ref \<Rightarrow> py_error + ('a heap \<times> ref)" where
  "insertion_sort_h f h arr =
     (let (h1, a) = alloc h (h ! arr) in
      case for_each [1..<length (h1 ! a)] (ins_body_h f a) h1 of
        Inl e \<Rightarrow> Inl e
      | Inr h' \<Rightarrow> Inr (h', a))"

subsection \<open>\<^verbatim>\<open>_merge\<close> and \<^verbatim>\<open>merge_sort\<close>\<close>

text \<open>
  The merge loop reads the objects \<open>left\<close> and \<open>right\<close> and appends to the object
  \<open>out\<close>. Were \<open>out\<close> one of the lists being read, the loop would not end; the result
  \<open>None\<close> stands for a computation that does not return.
\<close>

partial_function (option) merge_while_h ::
  "('a \<Rightarrow> 'k::linorder) \<Rightarrow> 'a heap \<Rightarrow> ref \<Rightarrow> ref \<Rightarrow> nat \<Rightarrow> nat \<Rightarrow> ref \<Rightarrow> (py_error + ('a heap \<times> nat \<times> nat)) option" where
  "merge_while_h f h left right i j out =
     (if i < length (h ! left) \<and> j < length (h ! right) then
        (case getitem (h ! left) (int i) of
           Inl e \<Rightarrow> Some (Inl e)
         | Inr x \<Rightarrow>
             (case getitem (h ! right) (int j) of
                Inl e \<Rightarrow> Some (Inl e)
              | Inr y \<Rightarrow>
                  if f x \<le> f y then
                    (case getitem (h ! left) (int i) of
                       Inl e \<Rightarrow> Some (Inl e)
                     | Inr x' \<Rightarrow> merge_while_h f (h[out := h ! out @ [x']]) left right (i + 1) j out)
                  else
                    (case getitem (h ! right) (int j) of
                       Inl e \<Rightarrow> Some (Inl e)
                     | Inr y' \<Rightarrow> merge_while_h f (h[out := h ! out @ [y']]) left right i (j + 1) out)))
      else Some (Inr (h, i, j)))"

text \<open>
  \<^verbatim>\<open>out.extend(src[i:])\<close>: the slice is a new, temporary object, whose elements are
  appended to \<open>out\<close>.
\<close>

definition extend_slice :: "'a heap \<Rightarrow> ref \<Rightarrow> ref \<Rightarrow> nat \<Rightarrow> 'a heap" where
  "extend_slice h out src i = (let (g, tmp) = alloc h (drop i (h ! src)) in g[out := g ! out @ g ! tmp])"

text \<open>\<^verbatim>\<open>_merge\<close>: \<^verbatim>\<open>out = []\<close> is a new object, and it is the one returned.\<close>

definition private_merge_h ::
  "('a \<Rightarrow> 'k::linorder) \<Rightarrow> 'a heap \<Rightarrow> ref \<Rightarrow> ref \<Rightarrow> (py_error + ('a heap \<times> ref)) option" where
  "private_merge_h f h left right =
     (let (h1, out) = alloc h [] in
      case merge_while_h f h1 left right 0 0 out of
        None \<Rightarrow> None
      | Some (Inl e) \<Rightarrow> Some (Inl e)
      | Some (Inr (h2, i, j)) \<Rightarrow>
          (let h3 = (if i < length (h2 ! left) then extend_slice h2 out left i else h2);
               h4 = (if j < length (h3 ! right) then extend_slice h3 out right j else h3)
           in Some (Inr (h4, out))))"

text \<open>
  \<^verbatim>\<open>merge_sort\<close>: \<^verbatim>\<open>arr.copy()\<close> or the two slices are new objects; the second slice
  is taken from \<^verbatim>\<open>arr\<close> after the first recursive call has returned.
\<close>

partial_function (option) merge_sort_h ::
  "('a \<Rightarrow> 'k::linorder) \<Rightarrow> 'a heap \<Rightarrow> ref \<Rightarrow> (py_error + ('a heap \<times> ref)) option" where
  "merge_sort_h f h arr =
     (let n = length (h ! arr) in
      if n \<le> 1 then Some (Inr (alloc h (h ! arr)))
      else
        (let mid = n div 2; (h1, l) = alloc h (take mid (h ! arr)) in
         Option.bind (merge_sort_h f h1 l) (\<lambda>r1.
           case r1 of
             Inl e \<Rightarrow> Some (Inl e)
           | Inr (h2, left) \<Rightarrow>
               (let (h3, r) = alloc h2 (drop mid (h2 ! arr)) in
                Option.bind (merge_sort_h f h3 r) (\<lambda>r2.
                  case r2 of
                    Inl e \<Rightarrow> Some (Inl e)
                  | Inr (h4, right) \<Rightarrow> private_merge_h f h4 left right)))))"

declare merge_while_h.simps [code] merge_sort_h.simps [code]

subsection \<open>\<^verbatim>\<open>timsort_sorted\<close>\<close>

text \<open>\<^verbatim>\<open>sorted(arr)\<close> returns a new list object and leaves its argument alone.\<close>

definition timsort_sorted_h :: "('a \<Rightarrow> 'k::linorder) \<Rightarrow> 'a heap \<Rightarrow> ref \<Rightarrow> 'a heap \<times> ref" where
  "timsort_sorted_h f h arr = alloc h (sort_key f (h ! arr))"

section \<open>The dataset generators\<close>

text \<open>
  The generators draw from the module-level generator of \<^verbatim>\<open>random\<close>. Its state is a
  value of an arbitrary type \<open>'g\<close> that every drawing function takes and returns. The
  generator itself belongs to the standard library: \<open>rb n g\<close> stands for
  \<^verbatim>\<open>_randbelow(n)\<close> in state \<open>g\<close>, the raw draw and the next state, and is a
  parameter. The library returns a value below \<open>n\<close>; the model reduces the raw draw
  modulo \<open>n\<close>, which covers every such function.
\<close>

type_synonym 'g randbelow = "nat \<Rightarrow> 'g \<Rightarrow> nat \<times> 'g"

text \<open>\<^verbatim>\<open>random.randrange(n)\<close> raises \<^verbatim>\<open>ValueError\<close> on an empty range.\<close>

definition randrange :: "'g randbelow \<Rightarrow> int \<Rightarrow> 'g \<Rightarrow> (py_error + int) \<times> 'g" where
  "randrange rb n g =
     (if n > 0 then (let (r, g') = rb (nat n) g in (Inr (int (r mod nat n)), g'))
      else (Inl ValueError, g))"

text \<open>\<^verbatim>\<open>random.randint(a, b)\<close> is \<^verbatim>\<open>randrange(a, b + 1)\<close>.\<close>

definition randint :: "'g randbelow \<Rightarrow> int \<Rightarrow> int \<Rightarrow> 'g \<Rightarrow> (py_error + int) \<times> 'g" where
  "randint rb a b g =
     (let width = b + 1 - a in
      if width > 0 then (let (r, g') = rb (nat width) g in (Inr (a + int (r mod nat width)), g'))
      else (Inl ValueError, g))"

text \<open>The comprehension \<^verbatim>\<open>[draw() for _ in range(k)]\<close>.\<close>

fun draw_list :: "nat \<Rightarrow> ('g \<Rightarrow> (py_error + int) \<times> 'g) \<Rightarrow> 'g \<Rightarrow> (py_error + int list) \<times> 'g" where
  "draw_list 0 draw g = (Inr [], g)"
| "draw_list (Suc k) draw g =
     (case draw g of
        (Inl e, g') \<Rightarrow> (Inl e, g')
      | (Inr x, g') \<Rightarrow>
          (case draw_list k draw g' of
             (Inl e, g'') \<Rightarrow> (Inl e, g'')
           | (Inr xs, g'') \<Rightarrow> (Inr (x # xs), g'')))"

definition make_random :: "'g randbelow \<Rightarrow> int \<Rightarrow> 'g \<Rightarrow> (py_error + int list) \<times> 'g" where
  "make_random rb n g = draw_list (nat n) (randint rb 0 (10 ^ 9)) g"

text \<open>\<^verbatim>\<open>list(range(n))\<close> and \<^verbatim>\<open>list(range(n, 0, -1))\<close>.\<close>

definition make_sorted :: "int \<Rightarrow> int list" where
  "make_sorted n = [0..n - 1]"

definition make_reverse :: "int \<Rightarrow> int list" where
  "make_reverse n = rev [1..n]"

text \<open>
  A Python \<^verbatim>\<open>float\<close> is a finite double, an infinity or a NaN; the sign of a zero is
  not modelled, since nothing here reads it. Which reals are doubles, and to which
  double a real is rounded, belongs to the arithmetic of the machine and is a parameter:
  \<open>rnd x\<close> is the double nearest to \<open>x\<close>, or \<open>None\<close> when \<open>x\<close> lies beyond the
  range of the finite doubles. A literal, and the exact result of an operation, are
  rounded by \<open>round_to\<close>; beyond the range the result is an infinity.
\<close>

datatype pyfloat = Finite real | PosInf | NegInf | NaN

type_synonym rounding = "real \<Rightarrow> real option"

definition round_to :: "rounding \<Rightarrow> real \<Rightarrow> pyfloat" where
  "round_to rnd x = (case rnd x of Some y \<Rightarrow> Finite y | None \<Rightarrow> if 0 < x then PosInf else NegInf)"

text \<open>
  The conversion of the \<^verbatim>\<open>int\<close> operand of a mixed product to a float: zero is exact,
  and an integer beyond the range raises \<^verbatim>\<open>OverflowError\<close>.
\<close>

definition float_of_int :: "rounding \<Rightarrow> int \<Rightarrow> py_error + pyfloat" where
  "float_of_int rnd n =
     (if n = 0 then Inr (Finite 0)
      else (case rnd (real_of_int n) of Some x \<Rightarrow> Inr (Finite x) | None \<Rightarrow> Inl OverflowError))"

text \<open>
  The product of two floats. A product that is zero is exact; zero times an infinity,
  and every product with a NaN, is a NaN.
\<close>

definition float_sign :: "pyfloat \<Rightarrow> int" where
  "float_sign x =
     (case x of Finite r \<Rightarrow> (if 0 < r then 1 else if r < 0 then - 1 else 0)
      | PosInf \<Rightarrow> 1 | NegInf \<Rightarrow> - 1 | NaN \<Rightarrow> 0)"

fun float_mul :: "rounding \<Rightarrow> pyfloat \<Rightarrow> pyfloat \<Rightarrow> pyfloat" where
  "float_mul rnd NaN y = NaN"
| "float_mul rnd x NaN = NaN"
| "float_mul rnd (Finite x) (Finite y) = (if x * y = 0 then Finite 0 else round_to rnd (x * y))"
| "float_mul rnd x y =
     (if float_sign x * float_sign y = 0 then NaN
      else if 0 < float_sign x * float_sign y then PosInf else NegInf)"

text \<open>
  \<^verbatim>\<open>int(x)\<close> of a float truncates towards zero; it raises \<^verbatim>\<open>OverflowError\<close> on an
  infinity and \<^verbatim>\<open>ValueError\<close> on a NaN.
\<close>

fun int_of_float :: "pyfloat \<Rightarrow> py_error + int" where
  "int_of_float (Finite x) = Inr (if x \<ge> 0 then \<lfloor>x\<rfloor> else \<lceil>x\<rceil>)"
| "int_of_float PosInf = Inl OverflowError"
| "int_of_float NegInf = Inl OverflowError"
| "int_of_float NaN = Inl ValueError"

text \<open>The expression \<^verbatim>\<open>max(1, int(n * swaps_ratio))\<close>, with \<open>n\<close> an \<^verbatim>\<open>int\<close>.\<close>

definition swap_count :: "rounding \<Rightarrow> int \<Rightarrow> pyfloat \<Rightarrow> py_error + int" where
  "swap_count rnd n swaps_ratio =
     (case float_of_int rnd n of
        Inl e \<Rightarrow> Inl e
      | Inr x \<Rightarrow>
          (case int_of_float (float_mul rnd x swaps_ratio) of
             Inl e \<Rightarrow> Inl e
           | Inr k \<Rightarrow> Inr (max 1 k)))"

text \<open>
  One iteration of the swap loop of \<^verbatim>\<open>make_nearly_sorted\<close>:
  \<^verbatim>\<open>
      i = random.randrange(n)
      j = random.randrange(n)
      a[i], a[j] = a[j], a[i]
  \<close>
  The right-hand side is evaluated first, then \<^verbatim>\<open>a[i]\<close> and \<^verbatim>\<open>a[j]\<close> are assigned
  in this order.
\<close>

definition swap_once :: "'g randbelow \<Rightarrow> int \<Rightarrow> int list \<Rightarrow> 'g \<Rightarrow> (py_error + int list) \<times> 'g" where
  "swap_once rb n a g =
     (case randrange rb n g of
        (Inl e, g1) \<Rightarrow> (Inl e, g1)
      | (Inr i, g1) \<Rightarrow>
          (case randrange rb n g1 of
             (Inl e, g2) \<Rightarrow> (Inl e, g2)
           | (Inr j, g2) \<Rightarrow>
               (case getitem a j of
                  Inl e \<Rightarrow> (Inl e, g2)
                | Inr aj \<Rightarrow>
                    (case getitem a i of
                       Inl e \<Rightarrow> (Inl e, g2)
                     | Inr ai \<Rightarrow>
                         (case setitem a i aj of
                            Inl e \<Rightarrow> (Inl e, g2)
                          | Inr a1 \<Rightarrow>
                              (case setitem a1 j ai of
                                 Inl e \<Rightarrow> (Inl e, g2)
                               | Inr a2 \<Rightarrow> (Inr a2, g2)))))))"

text \<open>\<^verbatim>\<open>for _ in range(swaps)\<close>, on the list and the generator state.\<close>

fun swap_loop :: "nat \<Rightarrow> 'g randbelow \<Rightarrow> int \<Rightarrow> int list \<Rightarrow> 'g \<Rightarrow> (py_error + int list) \<times> 'g" where
  "swap_loop 0 rb n a g = (Inr a, g)"
| "swap_loop (Suc k) rb n a g =
     (case swap_once rb n a g of
        (Inl e, g') \<Rightarrow> (Inl e, g')
      | (Inr a', g') \<Rightarrow> swap_loop k rb n a' g')"

text \<open>
  \<^verbatim>\<open>
      a = list(range(n))
      swaps = max(1, int(n * swaps_ratio))
      for _ in range(swaps): ...
      return a
  \<close>
\<close>

definition make_nearly_sorted ::
  "'g randbelow \<Rightarrow> rounding \<Rightarrow> int \<Rightarrow> pyfloat \<Rightarrow> 'g \<Rightarrow> (py_error + int list) \<times> 'g" where
  "make_nearly_sorted rb rnd n swaps_ratio g =
     (let a = [0..n - 1] in
      case swap_count rnd n swaps_ratio of
        Inl e \<Rightarrow> (Inl e, g)
      | Inr swaps \<Rightarrow> swap_loop (nat swaps) rb n a g)"

definition make_many_duplicates :: "'g randbelow \<Rightarrow> int \<Rightarrow> int \<Rightarrow> 'g \<Rightarrow> (py_error + int list) \<times> 'g" where
  "make_many_duplicates rb n uniques g = draw_list (nat n) (randrange rb uniques) g"

section \<open>Text, the environment and the state of a run\<close>

text \<open>
  A Python \<^verbatim>\<open>str\<close> is a sequence of code points; widths in format specifications
  count code points. The table uses one character outside ASCII, the em dash U+2014 of
  the cell that was not measured.
\<close>

type_synonym ustring = "nat list"

definition U :: "string \<Rightarrow> ustring" where
  "U s = map of_char s"

definition EM_DASH :: ustring where
  "EM_DASH = [8212]"

fun digits :: "nat \<Rightarrow> ustring" where
  "digits n = (if n < 10 then [48 + n] else digits (n div 10) @ [48 + n mod 10])"

declare digits.simps [simp del]

text \<open>\<^verbatim>\<open>str(i)\<close> of an integer, and the alignments \<^verbatim>\<open>{s:>w}\<close> and \<^verbatim>\<open>{s:<w}\<close>.\<close>

definition str_int :: "int \<Rightarrow> ustring" where
  "str_int i = (if i < 0 then 45 # digits (nat (- i)) else digits (nat i))"

definition rjust :: "nat \<Rightarrow> ustring \<Rightarrow> ustring" where
  "rjust w s = replicate (w - length s) 32 @ s"

definition ljust :: "nat \<Rightarrow> ustring \<Rightarrow> ustring" where
  "ljust w s = s @ replicate (w - length s) 32"

text \<open>
  What the run takes from outside the repository:
  \<^item> \<open>env_randbelow\<close> and \<open>env_seed\<close>: the generator of \<^verbatim>\<open>random\<close>, and the state
    that \<^verbatim>\<open>random.seed(s)\<close> sets, a function of \<open>s\<close> alone;
  \<^item> \<open>env_int\<close>: \<^verbatim>\<open>int(x)\<close> of a string, which raises \<^verbatim>\<open>ValueError\<close> on a string
    that is not a number;
  \<^item> \<open>env_round\<close>: the rounding of the arithmetic of floats;
  \<^item> \<open>env_fmt2\<close>: \<^verbatim>\<open>format(x, ".2f")\<close> of a float;
  \<^item> \<open>env_elapsed k calls\<close>: the time that the \<open>k\<close>-th batch of the process takes
    when it makes the calls \<open>calls\<close> of the timed function, each an argument with the
    value returned. Times are idealised as reals.
\<close>

record 'g env =
  env_randbelow :: "'g randbelow"
  env_seed :: "int \<Rightarrow> 'g"
  env_int :: "ustring \<Rightarrow> py_error + int"
  env_round :: rounding
  env_fmt2 :: "real \<Rightarrow> ustring"
  env_elapsed :: "nat \<Rightarrow> (int list \<times> int list) list \<Rightarrow> real"

text \<open>
  The state of a run: the state of the random generator, the number of batches timed
  so far, and the lines printed. Three more fields are ghost state, which no statement
  of the program reads: \<open>generated\<close> records every dataset a generator returned
  (dataset name, size, data), \<open>timed\<close> every call of \<^verbatim>\<open>bench_one\<close> (algorithm name,
  size, dataset name), and \<open>batches\<close> every batch that a timer completed, as the list
  of the calls of the timed function made in it.
\<close>

record 'g world =
  rng :: 'g
  ticks :: nat
  stdout :: "ustring list"
  generated :: "(ustring \<times> int \<times> int list) list"
  timed :: "(ustring \<times> int \<times> ustring) list"
  batches :: "(int list \<times> int list) list list"

type_synonym ('g, 'a) prog = "'g world \<Rightarrow> (py_error + 'a) \<times> 'g world"

definition py_print :: "ustring \<Rightarrow> 'g world \<Rightarrow> 'g world" where
  "py_print s w = w\<lparr>stdout := stdout w @ [s]\<rparr>"

text \<open>A \<^verbatim>\<open>for\<close> loop whose body acts on the state of the run.\<close>

fun for_w :: "'i list \<Rightarrow> ('i \<Rightarrow> 's \<Rightarrow> ('g, 's) prog) \<Rightarrow> 's \<Rightarrow> ('g, 's) prog" where
  "for_w [] body s w = (Inr s, w)"
| "for_w (i # rest) body s w =
     (case body i s w of
        (Inl e, w') \<Rightarrow> (Inl e, w')
      | (Inr s', w') \<Rightarrow> for_w rest body s' w')"

section \<open>The timer: \<^verbatim>\<open>bench_one\<close>\<close>

text \<open>
  The loop of a batch, \<^verbatim>\<open>for _i in itertools.repeat(None, number): func(data)\<close>: the
  thunk is called \<open>k\<close> times, and an exception of a call ends the loop. The result is
  the list of the calls made.
\<close>

fun call_times :: "nat \<Rightarrow> ('a \<Rightarrow> py_error + 'b) \<Rightarrow> 'a \<Rightarrow> py_error + ('a \<times> 'b) list" where
  "call_times 0 func data = Inr []"
| "call_times (Suc k) func data =
     (case func data of
        Inl e \<Rightarrow> Inl e
      | Inr res \<Rightarrow>
          (case call_times k func data of
             Inl e \<Rightarrow> Inl e
           | Inr calls \<Rightarrow> Inr ((data, res) # calls)))"

text \<open>
  \<^verbatim>\<open>Timer.timeit(number)\<close> runs one batch, the thunk \<^verbatim>\<open>func(data)\<close> called \<open>number\<close>
  times (not at all when \<open>number \<le> 0\<close>), and returns the time the batch took.
\<close>

definition timeit ::
  "'g env \<Rightarrow> (int list \<Rightarrow> py_error + int list) \<Rightarrow> int list \<Rightarrow> int \<Rightarrow> ('g, real) prog" where
  "timeit E func data number w =
     (case call_times (nat number) func data of
        Inl e \<Rightarrow> (Inl e, w)
      | Inr calls \<Rightarrow>
          (Inr (env_elapsed E (ticks w) calls),
           w\<lparr>ticks := Suc (ticks w), batches := batches w @ [calls]\<rparr>))"

text \<open>\<^verbatim>\<open>Timer.repeat(repeat, number)\<close>: the list of \<open>repeat\<close> batch times.\<close>

fun timer_repeat ::
  "nat \<Rightarrow> 'g env \<Rightarrow> (int list \<Rightarrow> py_error + int list) \<Rightarrow> int list \<Rightarrow> int \<Rightarrow> ('g, real list) prog" where
  "timer_repeat 0 E func data number w = (Inr [], w)"
| "timer_repeat (Suc k) E func data number w =
     (case timeit E func data number w of
        (Inl e, w') \<Rightarrow> (Inl e, w')
      | (Inr t, w') \<Rightarrow>
          (case timer_repeat k E func data number w' of
             (Inl e, w'') \<Rightarrow> (Inl e, w'')
           | (Inr ts, w'') \<Rightarrow> (Inr (t # ts), w'')))"

text \<open>
  \<^verbatim>\<open>
      runs = timer.repeat(repeat=repeat, number=number)
      return sum(runs) / len(runs) / number
  \<close>
  Either division raises \<^verbatim>\<open>ZeroDivisionError\<close> on a zero divisor.
\<close>

definition bench_one ::
  "'g env \<Rightarrow> (int list \<Rightarrow> py_error + int list) \<Rightarrow> int list \<Rightarrow> int \<Rightarrow> int \<Rightarrow> ('g, real) prog" where
  "bench_one E func data repeat number w =
     (case timer_repeat (nat repeat) E func data number w of
        (Inl e, w') \<Rightarrow> (Inl e, w')
      | (Inr runs, w') \<Rightarrow>
          if length runs = 0 then (Inl ZeroDivisionError, w')
          else if number = 0 then (Inl ZeroDivisionError, w')
          else (Inr (sum_list runs / real (length runs) / real_of_int number), w'))"

section \<open>The benchmark runner: \<^verbatim>\<open>run_bench\<close>\<close>

text \<open>
  The table \<^verbatim>\<open>DATASETS\<close>. A generator is called with the size alone, so
  \<^verbatim>\<open>make_nearly_sorted\<close> and \<^verbatim>\<open>make_many_duplicates\<close> run with their defaults, the
  float literal \<^verbatim>\<open>0.01\<close> and 100.
\<close>

definition DATASETS ::
  "'g randbelow \<Rightarrow> rounding \<Rightarrow> (ustring \<times> (int \<Rightarrow> 'g \<Rightarrow> (py_error + int list) \<times> 'g)) list" where
  "DATASETS rb rnd =
     [(U ''random'', make_random rb),
      (U ''sorted'', \<lambda>n g. (Inr (make_sorted n), g)),
      (U ''reverse'', \<lambda>n g. (Inr (make_reverse n), g)),
      (U ''nearly_sorted'', \<lambda>n. make_nearly_sorted rb rnd n (round_to rnd (1 / 100))),
      (U ''many_duplicates'', \<lambda>n. make_many_duplicates rb n 100)]"

definition algos :: "(ustring \<times> (int list \<Rightarrow> py_error + int list)) list" where
  "algos =
     [(U ''Insertion'', insertion_sort),
      (U ''Merge'', merge_sort),
      (U ''Timsort(sorted)'', \<lambda>xs. Inr (timsort_sorted xs))]"

text \<open>
  The dictionary \<^verbatim>\<open>times_ms\<close>: every key is bound to \<^verbatim>\<open>None\<close> or to a float.
\<close>

type_synonym times = "ustring \<rightharpoonup> real option"

definition times_init :: times where
  "times_init = [U ''Insertion'' \<mapsto> None, U ''Merge'' \<mapsto> None, U ''Timsort(sorted)'' \<mapsto> None]"

text \<open>
  The body of \<^verbatim>\<open>for algo_name, algo in algos\<close>:
  \<^verbatim>\<open>
      if algo_name == "Insertion" and n > include_insertion_upper_n:
          continue
      t = bench_one(lambda d=data: algo(d.copy()), data, repeat, number) * 1000.0
      times_ms[algo_name] = t
  \<close>
  The thunk applies \<open>algo\<close> to a copy of \<open>data\<close>; on values that is \<open>algo data\<close>.
\<close>

definition time_algo ::
  "'g env \<Rightarrow> int \<Rightarrow> ustring \<Rightarrow> int list \<Rightarrow> int \<Rightarrow> int \<Rightarrow> int \<Rightarrow>
   ustring \<times> (int list \<Rightarrow> py_error + int list) \<Rightarrow> times \<Rightarrow> ('g, times) prog" where
  "time_algo E n name data repeat number include_insertion_upper_n algo times_ms w =
     (case algo of (algo_name, func) \<Rightarrow>
        if algo_name = U ''Insertion'' \<and> n > include_insertion_upper_n then (Inr times_ms, w)
        else
          (case bench_one E func data repeat number (w\<lparr>timed := timed w @ [(algo_name, n, name)]\<rparr>) of
             (Inl e, w') \<Rightarrow> (Inl e, w')
           | (Inr t, w') \<Rightarrow> (Inr (times_ms(algo_name \<mapsto> Some (t * 1000))), w')))"

text \<open>
  \<^verbatim>\<open>
      ins = f"{times_ms['Insertion']:.2f}" if times_ms["Insertion"] is not None else "\<emdash>"
      mer = f"{times_ms['Merge']:.2f}"
  \<close>
  Formatting \<^verbatim>\<open>None\<close> with \<^verbatim>\<open>.2f\<close> raises \<^verbatim>\<open>TypeError\<close>.
\<close>

definition cell_or_dash :: "'g env \<Rightarrow> times \<Rightarrow> ustring \<Rightarrow> py_error + ustring" where
  "cell_or_dash E times_ms k =
     (case times_ms k of
        None \<Rightarrow> Inl KeyError
      | Some None \<Rightarrow> Inr EM_DASH
      | Some (Some t) \<Rightarrow> Inr (env_fmt2 E t))"

definition cell :: "'g env \<Rightarrow> times \<Rightarrow> ustring \<Rightarrow> py_error + ustring" where
  "cell E times_ms k =
     (case times_ms k of
        None \<Rightarrow> Inl KeyError
      | Some None \<Rightarrow> Inl TypeError
      | Some (Some t) \<Rightarrow> Inr (env_fmt2 E t))"

text \<open>\<^verbatim>\<open>f"{n:8d}  {name:<16}  {ins:>14}  {mer:>11}  {tim:>13}"\<close>\<close>

definition row_line :: "int \<Rightarrow> ustring \<Rightarrow> ustring \<Rightarrow> ustring \<Rightarrow> ustring \<Rightarrow> ustring" where
  "row_line n name ins mer tim =
     rjust 8 (str_int n) @ U ''  '' @ ljust 16 name @ U ''  '' @ rjust 14 ins @ U ''  '' @
     rjust 11 mer @ U ''  '' @ rjust 13 tim"

text \<open>
  The body of \<^verbatim>\<open>for name, gen in DATASETS\<close>: one dataset is generated, the algorithms
  are timed on it, and the row is printed.
\<close>

definition bench_row ::
  "'g env \<Rightarrow> int \<Rightarrow> int \<Rightarrow> int \<Rightarrow> int \<Rightarrow>
   ustring \<times> (int \<Rightarrow> 'g \<Rightarrow> (py_error + int list) \<times> 'g) \<Rightarrow> ('g, unit) prog" where
  "bench_row E repeat number include_insertion_upper_n n dataset w =
     (case dataset of (name, gen) \<Rightarrow>
        (case gen n (rng w) of
           (Inl e, g') \<Rightarrow> (Inl e, w\<lparr>rng := g'\<rparr>)
         | (Inr data, g') \<Rightarrow>
             (case for_w algos (time_algo E n name data repeat number include_insertion_upper_n)
                     times_init (w\<lparr>rng := g', generated := generated w @ [(name, n, data)]\<rparr>) of
                (Inl e, w1) \<Rightarrow> (Inl e, w1)
              | (Inr times_ms, w1) \<Rightarrow>
                  (case cell_or_dash E times_ms (U ''Insertion'') of
                     Inl e \<Rightarrow> (Inl e, w1)
                   | Inr ins \<Rightarrow>
                       (case cell E times_ms (U ''Merge'') of
                          Inl e \<Rightarrow> (Inl e, w1)
                        | Inr mer \<Rightarrow>
                            (case cell E times_ms (U ''Timsort(sorted)'') of
                               Inl e \<Rightarrow> (Inl e, w1)
                             | Inr tim \<Rightarrow> (Inr (), py_print (row_line n name ins mer tim) w1)))))))"

definition header_lines :: "int \<Rightarrow> int \<Rightarrow> ustring list" where
  "header_lines repeat number =
     [10 # U ''Benchmark: repeat='' @ str_int repeat @ U '', number='' @ str_int number,
      rjust 8 (U ''n'') @ U ''  '' @ ljust 16 (U ''dataset'') @ U ''  '' @
        rjust 14 (U ''Insertion (ms)'') @ U ''  '' @ rjust 11 (U ''Merge (ms)'') @ U ''  '' @
        rjust 13 (U ''Timsort (ms)''),
      replicate 70 45]"

definition run_bench :: "'g env \<Rightarrow> int list \<Rightarrow> int \<Rightarrow> int \<Rightarrow> int \<Rightarrow> ('g, unit) prog" where
  "run_bench E ns repeat number include_insertion_upper_n w =
     for_w ns
       (\<lambda>n u. for_w (DATASETS (env_randbelow E) (env_round E))
                 (\<lambda>dataset u. bench_row E repeat number include_insertion_upper_n n dataset) u)
       () (w\<lparr>stdout := stdout w @ header_lines repeat number\<rparr>)"

section \<open>\<^verbatim>\<open>analyze_scaling\<close> and \<^verbatim>\<open>main\<close>\<close>

text \<open>
  The body of \<^verbatim>\<open>for n in ns\<close> of \<^verbatim>\<open>analyze_scaling\<close>; the loop state is \<^verbatim>\<open>prev_t\<close>.
  \<^verbatim>\<open>
      data = make_random(n)
      t = bench_one(algo, data, repeat=3, number=1)
      ratio = (t / prev_t) if prev_t else float('nan')
      print(f"    n={n:6d}: {t*1000:8.2f} ms  " f"{'(x' + f'{ratio:.2f}' + ')' if prev_t else ''}")
      prev_t = t
  \<close>
  \<^verbatim>\<open>prev_t\<close> is false when it is \<^verbatim>\<open>None\<close> or \<open>0.0\<close>.
\<close>

definition scaling_step ::
  "'g env \<Rightarrow> ustring \<times> (int list \<Rightarrow> py_error + int list) \<Rightarrow> int \<Rightarrow> real option \<Rightarrow>
   ('g, real option) prog" where
  "scaling_step E algo n prev_t w =
     (case algo of (algo_name, func) \<Rightarrow>
        (case make_random (env_randbelow E) n (rng w) of
           (Inl e, g') \<Rightarrow> (Inl e, w\<lparr>rng := g'\<rparr>)
         | (Inr data, g') \<Rightarrow>
             (case bench_one E func data 3 1
                     (w\<lparr>rng := g', generated := generated w @ [(U ''random'', n, data)],
                        timed := timed w @ [(algo_name, n, U ''random'')]\<rparr>) of
                (Inl e, w1) \<Rightarrow> (Inl e, w1)
              | (Inr t, w1) \<Rightarrow>
                  (let truthy = (case prev_t of None \<Rightarrow> False | Some p \<Rightarrow> p \<noteq> 0);
                       suffix = (if truthy then U ''(x'' @ env_fmt2 E (t / the prev_t) @ U '')'' else [])
                   in (Inr (Some t),
                       py_print (U ''    n='' @ rjust 6 (str_int n) @ U '': '' @
                                 rjust 8 (env_fmt2 E (t * 1000)) @ U '' ms  '' @ suffix) w1)))))"

definition scaling_algo ::
  "'g env \<Rightarrow> ustring \<times> (int list \<Rightarrow> py_error + int list) \<Rightarrow> unit \<Rightarrow> ('g, unit) prog" where
  "scaling_algo E algo u w =
     (let ns = (if fst algo = U ''Insertion'' then [1000, 2000, 4000, 8000]
                else [2000, 4000, 8000, 16000])
      in case for_w ns (scaling_step E algo) None (py_print (U ''  '' @ fst algo @ U '':'') w) of
           (Inl e, w') \<Rightarrow> (Inl e, w')
         | (Inr prev_t, w') \<Rightarrow> (Inr (), w'))"

definition analyze_scaling :: "'g env \<Rightarrow> ('g, unit) prog" where
  "analyze_scaling E w =
     for_w algos (scaling_algo E) ()
       (py_print (10 # U ''Empirical scaling on random data (Insertion vs Merge vs Timsort)'') w)"

text \<open>
  The arguments that \<^verbatim>\<open>parse_args\<close> returns. \<^verbatim>\<open>argparse\<close> has converted \<^verbatim>\<open>--repeat\<close>,
  \<^verbatim>\<open>--number\<close> and \<^verbatim>\<open>--ins-max\<close> to integers; \<^verbatim>\<open>--sizes\<close> is still a string.
\<close>

record args =
  args_sizes :: ustring
  args_repeat :: int
  args_number :: int
  args_ins_max :: int
  args_no_scaling :: bool

text \<open>
  \<^verbatim>\<open>str.split(",")\<close>, and the characters that \<^verbatim>\<open>str.strip()\<close> removes: \<^verbatim>\<open>x.strip()\<close> is
  true when \<open>x\<close> has a character that is not white space.
\<close>

fun split_on :: "nat \<Rightarrow> ustring \<Rightarrow> ustring list" where
  "split_on sep [] = [[]]"
| "split_on sep (c # cs) =
     (if c = sep then [] # split_on sep cs
      else (case split_on sep cs of [] \<Rightarrow> [[c]] | p # ps \<Rightarrow> (c # p) # ps))"

definition py_isspace :: "nat \<Rightarrow> bool" where
  "py_isspace c \<longleftrightarrow>
     (9 \<le> c \<and> c \<le> 13) \<or> (28 \<le> c \<and> c \<le> 32) \<or> c = 133 \<or> c = 160 \<or> c = 5760 \<or>
     (8192 \<le> c \<and> c \<le> 8202) \<or> c = 8232 \<or> c = 8233 \<or> c = 8239 \<or> c = 8287 \<or> c = 12288"

definition strip_nonempty :: "ustring \<Rightarrow> bool" where
  "strip_nonempty x = list_ex (\<lambda>c. \<not> py_isspace c) x"

text \<open>A comprehension \<^verbatim>\<open>[conv(x) for x in xs]\<close> whose conversion may raise.\<close>

fun map_err :: "('a \<Rightarrow> py_error + 'b) \<Rightarrow> 'a list \<Rightarrow> py_error + 'b list" where
  "map_err conv [] = Inr []"
| "map_err conv (x # xs) =
     (case conv x of
        Inl e \<Rightarrow> Inl e
      | Inr y \<Rightarrow> (case map_err conv xs of Inl e \<Rightarrow> Inl e | Inr ys \<Rightarrow> Inr (y # ys)))"

text \<open>\<^verbatim>\<open>ns = [int(x) for x in args.sizes.split(",") if x.strip()]\<close>\<close>

definition parse_sizes :: "'g env \<Rightarrow> ustring \<Rightarrow> py_error + int list" where
  "parse_sizes E s = map_err (env_int E) (filter strip_nonempty (split_on 44 s))"

text \<open>
  \<^verbatim>\<open>random.seed(s)\<close> replaces the state of the generator by the state that \<open>s\<close>
  determines. \<^verbatim>\<open>main\<close>: the generator is seeded with 42, the sizes are parsed, the benchmark runs,
  then the scaling analysis unless it is switched off. The result \<open>Inr 0\<close> is the
  return value 0; \<open>Inl e\<close> is an exception that nothing catches.
\<close>

definition py_seed :: "'g env \<Rightarrow> int \<Rightarrow> 'g world \<Rightarrow> 'g world" where
  "py_seed E s w = w\<lparr>rng := env_seed E s\<rparr>"

definition main :: "'g env \<Rightarrow> args \<Rightarrow> ('g, int) prog" where
  "main E a w =
     (let w0 = py_seed E 42 w in
      case parse_sizes E (args_sizes a) of
        Inl e \<Rightarrow> (Inl e, w0)
      | Inr ns \<Rightarrow>
          (case run_bench E ns (args_repeat a) (args_number a) (args_ins_max a) w0 of
             (Inl e, w1) \<Rightarrow> (Inl e, w1)
           | (Inr u, w1) \<Rightarrow>
               if \<not> args_no_scaling a then
                 (case analyze_scaling E w1 of
                    (Inl e, w2) \<Rightarrow> (Inl e, w2)
                  | (Inr u', w2) \<Rightarrow> (Inr 0, w2))
               else (Inr 0, w1)))"

text \<open>
  \<^verbatim>\<open>raise SystemExit(main())\<close>: the exit status of the process is the value returned,
  or 1 when an exception ends the run.
\<close>

definition exit_status :: "py_error + int \<Rightarrow> int" where
  "exit_status r = (case r of Inl e \<Rightarrow> 1 | Inr c \<Rightarrow> c)"

section \<open>A sample environment\<close>

text \<open>
  The concrete instances further down run the program in one environment, chosen for
  easy evaluation: a counter as random generator, a parser of ASCII decimal numbers
  for \<^verbatim>\<open>int\<close>, exact arithmetic for the floats, a rendering of reals with two decimals,
  and batch times of 1 ms, 2 ms, 3 ms and so on. The theorems themselves hold in every
  environment.
\<close>

definition sample_randbelow :: "nat randbelow" where
  "sample_randbelow n g = (7 * g + 3, Suc g)"

definition sample_int :: "ustring \<Rightarrow> py_error + int" where
  "sample_int x =
     (let t = dropWhile py_isspace (rev (dropWhile py_isspace (rev x)));
          neg = (case t of [] \<Rightarrow> False | c # r \<Rightarrow> c = 45);
          ds = (case t of [] \<Rightarrow> [] | c # r \<Rightarrow> if c = 45 \<or> c = 43 then r else t)
      in if ds \<noteq> [] \<and> list_all (\<lambda>c. 48 \<le> c \<and> c \<le> 57) ds
         then Inr ((if neg then - 1 else 1) * foldl (\<lambda>a c. 10 * a + int (c - 48)) 0 ds)
         else Inl ValueError)"

definition sample_fmt2 :: "real \<Rightarrow> ustring" where
  "sample_fmt2 x =
     (let c = \<lfloor>x * 100 + 1 / 2\<rfloor>; m = nat \<bar>c\<bar>
      in (if c < 0 then [45] else []) @ digits (m div 100) @ [46, 48 + (m mod 100) div 10, 48 + m mod 10])"

definition sample_elapsed :: "nat \<Rightarrow> (int list \<times> int list) list \<Rightarrow> real" where
  "sample_elapsed k calls = real (k + 1) / 1000"

definition sample_env :: "nat env" where
  "sample_env =
     \<lparr>env_randbelow = sample_randbelow, env_seed = (\<lambda>s. nat \<bar>s\<bar>), env_int = sample_int,
      env_round = Some, env_fmt2 = sample_fmt2, env_elapsed = sample_elapsed\<rparr>"

text \<open>The state of a process at its start, with the generator in state \<open>g\<close>.\<close>

definition start :: "'g \<Rightarrow> 'g world" where
  "start g = \<lparr>rng = g, ticks = 0, stdout = [], generated = [], timed = [], batches = []\<rparr>"

section \<open>Loop invariants\<close>

text \<open>
  The invariant of the outer loop of \<^verbatim>\<open>insertion_sort\<close> before iteration \<open>i\<close>: the
  working copy \<open>a\<close> has the length of the input, agrees with it from index \<open>i\<close> on, and
  its first \<open>i\<close> elements are the first \<open>i\<close> elements of the input, sorted by key, with
  the elements of each key in their original order.
\<close>

definition ins_inv :: "('a \<Rightarrow> 'k::linorder) \<Rightarrow> nat \<Rightarrow> 'a list \<Rightarrow> 'a list \<Rightarrow> bool" where
  "ins_inv f i arr a \<longleftrightarrow>
     length a = length arr \<and> drop i a = drop i arr \<and> sorted (map f (take i a)) \<and>
     mset (take i a) = mset (take i arr) \<and>
     (\<forall>k. filter (\<lambda>x. f x = k) (take i a) = filter (\<lambda>x. f x = k) (take i arr))"

section \<open>Auxiliary notions for the benchmark proofs\<close>

text \<open>
  The calls of one batch of \<open>number\<close> calls of a function that returns \<open>res\<close> on
  \<open>data\<close>, and the batches of one call of \<^verbatim>\<open>bench_one\<close>.
\<close>

definition batch_calls :: "int \<Rightarrow> int list \<Rightarrow> int list \<Rightarrow> (int list \<times> int list) list" where
  "batch_calls number data res = replicate (nat number) (data, res)"

definition bench_batches :: "int \<Rightarrow> int \<Rightarrow> int list \<Rightarrow> int list \<Rightarrow> (int list \<times> int list) list list" where
  "bench_batches repeat number data res = replicate (nat repeat) (batch_calls number data res)"

text \<open>
  The value that \<^verbatim>\<open>bench_one\<close> returns, in seconds, when the first of its batches is
  the \<open>k\<close>-th of the process and every batch makes the calls \<open>calls\<close>; and the value
  that \<^verbatim>\<open>run_bench\<close> stores for a sort of \<open>data\<close>, in milliseconds.
\<close>

definition mean_s :: "'g env \<Rightarrow> nat \<Rightarrow> (int list \<times> int list) list \<Rightarrow> int \<Rightarrow> int \<Rightarrow> real" where
  "mean_s E k calls repeat number =
     sum_list (map (\<lambda>i. env_elapsed E i calls) [k..<k + nat repeat]) / real_of_int repeat / real_of_int number"

definition mean_ms :: "'g env \<Rightarrow> nat \<Rightarrow> int list \<Rightarrow> int \<Rightarrow> int \<Rightarrow> real" where
  "mean_ms E k data repeat number =
     mean_s E k (batch_calls number data (timsort_sorted data)) repeat number * 1000"


text \<open>The lines printed so far begin with the lines \<open>base\<close>.\<close>

definition prints_after :: "ustring list \<Rightarrow> 'g world \<Rightarrow> bool" where
  "prints_after base w \<longleftrightarrow> (\<exists>rest. stdout w = base @ rest)"

text \<open>
  Two runs are compared through relations. Two states agree on the data of a run when
  the generator is in the same state and the same datasets were generated; the batches
  timed and the lines printed may differ. Two dictionaries of times have the same
  shape when they bind the same keys, each to \<^verbatim>\<open>None\<close> in both or to a float in both.
\<close>

definition same_data :: "'g world \<Rightarrow> 'g world \<Rightarrow> bool" where
  "same_data w1 w2 \<longleftrightarrow> rng w1 = rng w2 \<and> generated w1 = generated w2"

definition same_shape :: "times \<Rightarrow> times \<Rightarrow> bool" where
  "same_shape t1 t2 \<longleftrightarrow> (\<forall>k. rel_option (rel_option (\<lambda>x y. True)) (t1 k) (t2 k))"

abbreviation (input) any :: "'a \<Rightarrow> 'b \<Rightarrow> bool" where
  "any \<equiv> \<lambda>x y. True"

section \<open>Indexing lemmas\<close>

lemma getitem_int:
  "getitem xs (int i) = (if i < length xs then Inr (xs ! i) else Inl IndexError)"
  by (simp add: getitem_def)

lemma setitem_int:
  "setitem xs (int i) v = (if i < length xs then Inr (xs[i := v]) else Inl IndexError)"
  by (simp add: setitem_def)

declare ins_while.simps [simp del] merge_while.simps [simp del] merge_sort_key.simps [simp del]

section \<open>Correctness of \<^verbatim>\<open>insertion_sort\<close>\<close>

lemma ins_while_step:
  "m < length a \<Longrightarrow> ins_while f a (int m) key =
     (if f key < f (a ! m)
      then (if Suc m < length a then ins_while f (a[Suc m := a ! m]) (int m - 1) key else Inl IndexError)
      else Inr (a, int m))"
  using setitem_int[of a "Suc m" "a ! m"]
  by (subst ins_while.simps) (simp add: getitem_int add.commute)

lemma ins_while_neg: "ins_while f a (- 1) key = Inr (a, - 1)"
  by (subst ins_while.simps) simp

lemma shift_eq:
  assumes "p \<le> m" "Suc m < length a"
  shows "take (Suc p) (a[Suc m := a ! m]) @ take (m - p) (drop p (a[Suc m := a ! m])) @ drop (Suc m) (a[Suc m := a ! m])
       = take (Suc p) a @ take (Suc m - p) (drop p a) @ drop (Suc (Suc m)) a"
proof -
  have "take (Suc m - p) (drop p a) = take (m - p) (drop p a) @ [a ! m]"
    using assms by (simp add: Suc_diff_le take_Suc_conv_app_nth)
  moreover have "drop (Suc m) (a[Suc m := a ! m]) = a ! m # drop (Suc (Suc m)) a"
    using assms by (simp add: drop_update_cancel flip: Cons_nth_drop_Suc)
  ultimately show ?thesis using assms by (simp add: drop_update_swap)
qed

lemma ins_while_spec:
  "m < length a \<Longrightarrow>
   \<exists>p\<le>m. ins_while f a (int m - 1) key =
            Inr (take (Suc p) a @ take (m - p) (drop p a) @ drop (Suc m) a, int p - 1)
        \<and> (0 < p \<longrightarrow> f (a ! (p - 1)) \<le> f key)
        \<and> (\<forall>k. p \<le> k \<and> k < m \<longrightarrow> f key < f (a ! k))"
proof (induction m arbitrary: a)
  case 0
  then show ?case
    by (simp add: ins_while_neg flip: Cons_nth_drop_Suc) 
next
  case (Suc m)
  have m: "m < length a" using Suc.prems by simp
  show ?case
  proof (cases "f key < f (a ! m)")
    case False
    have "ins_while f a (int (Suc m) - 1) key = Inr (a, int (Suc m) - 1)"
      using False m by (simp add: ins_while_step)
    moreover have "take (Suc (Suc m)) a @ take (Suc m - Suc m) (drop (Suc m) a) @ drop (Suc (Suc m)) a = a"
      by simp
    ultimately show ?thesis using False
      by (intro exI[of _ "Suc m"]) (auto simp: not_less)
  next
    case True
    let ?a1 = "a[Suc m := a ! m]"
    have "m < length ?a1" using m by simp
    from Suc.IH[OF this] obtain p where p: "p \<le> m"
      "ins_while f ?a1 (int m - 1) key =
         Inr (take (Suc p) ?a1 @ take (m - p) (drop p ?a1) @ drop (Suc m) ?a1, int p - 1)"
      "0 < p \<longrightarrow> f (?a1 ! (p - 1)) \<le> f key"
      "\<forall>k. p \<le> k \<and> k < m \<longrightarrow> f key < f (?a1 ! k)"
      by blast
    have "ins_while f a (int (Suc m) - 1) key = ins_while f ?a1 (int m - 1) key"
      using True m Suc.prems by (simp add: ins_while_step)
    then have 1: "ins_while f a (int (Suc m) - 1) key =
         Inr (take (Suc p) a @ take (Suc m - p) (drop p a) @ drop (Suc (Suc m)) a, int p - 1)"
      using p(2) shift_eq[OF p(1) Suc.prems] by simp
    have 2: "0 < p \<longrightarrow> f (a ! (p - 1)) \<le> f key"
      using p(1,3) by (auto simp: nth_list_update)
    have 3: "\<forall>k. p \<le> k \<and> k < Suc m \<longrightarrow> f key < f (a ! k)"
      using p(4) True by (auto simp: nth_list_update less_Suc_eq)
    from 1 2 3 p(1) show ?thesis
      by (intro exI[of _ p]) simp
  qed
qed

lemma ins_body_spec:
  assumes "i < length a"
  shows "\<exists>p\<le>i. ins_body f i a = Inr (take p a @ [a ! i] @ take (i - p) (drop p a) @ drop (Suc i) a)
        \<and> (0 < p \<longrightarrow> f (a ! (p - 1)) \<le> f (a ! i))
        \<and> (\<forall>k. p \<le> k \<and> k < i \<longrightarrow> f (a ! i) < f (a ! k))"
proof -
  from ins_while_spec[OF assms, of f "a ! i"] obtain p where p: "p \<le> i"
    "ins_while f a (int i - 1) (a ! i) =
       Inr (take (Suc p) a @ take (i - p) (drop p a) @ drop (Suc i) a, int p - 1)"
    "0 < p \<longrightarrow> f (a ! (p - 1)) \<le> f (a ! i)"
    "\<forall>k. p \<le> k \<and> k < i \<longrightarrow> f (a ! i) < f (a ! k)"
    by blast
  let ?a' = "take (Suc p) a @ take (i - p) (drop p a) @ drop (Suc i) a"
  have pl: "p < length a" using p(1) assms by simp
  have "take (Suc p) a = take p a @ [a ! p]"
    using pl by (simp add: take_Suc_conv_app_nth)
  then have "?a'[p := a ! i] = take p a @ [a ! i] @ take (i - p) (drop p a) @ drop (Suc i) a"
    using pl by (simp add: list_update_append)
  moreover have "p < length ?a'" using pl by simp
  ultimately have "setitem ?a' (int p - 1 + 1) (a ! i) =
      Inr (take p a @ [a ! i] @ take (i - p) (drop p a) @ drop (Suc i) a)"
    by (simp add: setitem_int)
  then have "ins_body f i a = Inr (take p a @ [a ! i] @ take (i - p) (drop p a) @ drop (Suc i) a)"
    using assms p(2) by (simp add: ins_body_def getitem_int)
  with p(1,3,4) show ?thesis by blast
qed

lemma ins_body_inv:
  assumes i: "i < length a" and srt: "sorted (map f (take i a))"
  shows "\<exists>a'. ins_body f i a = Inr a' \<and> length a' = length a
           \<and> drop (Suc i) a' = drop (Suc i) a
           \<and> sorted (map f (take (Suc i) a'))
           \<and> mset (take (Suc i) a') = mset (take (Suc i) a)
           \<and> (\<forall>k. filter (\<lambda>x. f x = k) (take (Suc i) a') = filter (\<lambda>x. f x = k) (take (Suc i) a))"
proof -
  from ins_body_spec[OF i, of f] obtain p where p: "p \<le> i"
    "ins_body f i a = Inr (take p a @ [a ! i] @ take (i - p) (drop p a) @ drop (Suc i) a)"
    "0 < p \<longrightarrow> f (a ! (p - 1)) \<le> f (a ! i)"
    "\<forall>k. p \<le> k \<and> k < i \<longrightarrow> f (a ! i) < f (a ! k)"
    by blast
  let ?lo = "take p a" and ?hi = "take (i - p) (drop p a)"
  let ?a' = "?lo @ [a ! i] @ ?hi @ drop (Suc i) a"
  have pre: "take i a = ?lo @ ?hi"
    using p(1) by (metis le_add_diff_inverse take_add)
  have len: "length ?lo = p" "length ?hi = i - p" using p(1) i by simp_all
  have tk': "take (Suc i) ?a' = ?lo @ [a ! i] @ ?hi"
    using p(1) i by (simp add: Suc_diff_le)
  have tk: "take (Suc i) a = ?lo @ ?hi @ [a ! i]"
    using i pre by (simp add: take_Suc_conv_app_nth)
  have dr: "drop (Suc i) ?a' = drop (Suc i) a"
    using p(1) i by (simp add: Suc_diff_le)
  have hi_gt: "\<forall>x\<in>set ?hi. f (a ! i) < f x"
  proof
    fix x assume "x \<in> set ?hi"
    then obtain k where "k < i - p" "x = ?hi ! k"
      using len(2) by (metis in_set_conv_nth)
    then have "x = a ! (p + k)" "p \<le> p + k" "p + k < i" using i by simp_all
    with p(4) show "f (a ! i) < f x" by blast
  qed
  have lo_le: "\<forall>x\<in>set ?lo. f x \<le> f (a ! i)"
  proof
    fix x assume "x \<in> set ?lo"
    then obtain k where k: "k < p" "x = ?lo ! k"
      using len(1) by (metis in_set_conv_nth)
    then have x: "x = a ! k" by simp
    have "sorted (map f ?lo)" using srt pre by (simp add: sorted_append)
    moreover have "k \<le> p - 1" "p - 1 < length (map f ?lo)" using k(1) len(1) by simp_all
    ultimately have "map f ?lo ! k \<le> map f ?lo ! (p - 1)"
      by (rule sorted_nth_mono)
    then have "f (a ! k) \<le> f (a ! (p - 1))" using k(1) len(1) by simp
    with p(3) k(1) x show "f x \<le> f (a ! i)" by auto
  qed
  have s': "sorted (map f (?lo @ [a ! i] @ ?hi))"
    using srt pre hi_gt lo_le by (auto simp: sorted_append less_imp_le)
  have flt: "filter (\<lambda>x. f x = k) (?lo @ [a ! i] @ ?hi) = filter (\<lambda>x. f x = k) (?lo @ ?hi @ [a ! i])" for k
  proof (cases "f (a ! i) = k")
    case True
    then have "filter (\<lambda>x. f x = k) ?hi = []"
      using hi_gt by (auto simp: filter_empty_conv)
    then show ?thesis by simp
  next
    case False
    then show ?thesis by simp
  qed
  have "length ?a' = length a" using p(1) i by simp
  with p(2) dr s' flt tk tk' show ?thesis
    by (intro exI[of _ ?a']) (simp del: append_assoc append.simps filter_append filter.simps)
qed

lemma ins_inv_step:
  assumes inv: "ins_inv f i arr a" and i: "i < length a"
  shows "\<exists>a'. ins_body f i a = Inr a' \<and> ins_inv f (Suc i) arr a'"
proof -
  from inv have srt: "sorted (map f (take i a))" by (simp add: ins_inv_def)
  from ins_body_inv[OF i srt] obtain a' where a':
    "ins_body f i a = Inr a'" "length a' = length a"
    "drop (Suc i) a' = drop (Suc i) a"
    "sorted (map f (take (Suc i) a'))"
    "mset (take (Suc i) a') = mset (take (Suc i) a)"
    "\<forall>k. filter (\<lambda>x. f x = k) (take (Suc i) a') = filter (\<lambda>x. f x = k) (take (Suc i) a)"
    by blast
  have len: "length a = length arr" using inv by (simp add: ins_inv_def)
  have dr: "drop i a = drop i arr" using inv by (simp add: ins_inv_def)
  have nth: "a ! i = arr ! i"
    using dr i len by (metis Cons_nth_drop_Suc list.inject)
  have dr': "drop (Suc i) a = drop (Suc i) arr"
    using dr by (metis drop_Suc tl_drop)
  have tk: "take (Suc i) a = take i a @ [arr ! i]" "take (Suc i) arr = take i arr @ [arr ! i]"
    using i len nth by (simp_all add: take_Suc_conv_app_nth)
  have "mset (take (Suc i) a) = mset (take (Suc i) arr)"
    using inv tk by (simp add: ins_inv_def)
  moreover have "filter (\<lambda>x. f x = k) (take (Suc i) a) = filter (\<lambda>x. f x = k) (take (Suc i) arr)" for k
    using inv tk by (simp add: ins_inv_def)
  ultimately have "ins_inv f (Suc i) arr a'"
    using a' len dr' by (simp add: ins_inv_def)
  with a'(1) show ?thesis by blast
qed

lemma ins_loop:
  assumes "ins_inv f i arr a" "i \<le> length a"
  shows "\<exists>a'. for_each [i..<length a] (ins_body f) a = Inr a' \<and> ins_inv f (length a) arr a'"
  using assms
proof (induction "length a - i" arbitrary: i a)
  case 0
  then show ?case by simp
next
  case (Suc d)
  then have i: "i < length a" by simp
  from ins_inv_step[OF Suc.prems(1) i] obtain a1 where a1:
    "ins_body f i a = Inr a1" "ins_inv f (Suc i) arr a1" by blast
  have len: "length a1 = length a" using a1(2) Suc.prems(1) by (simp add: ins_inv_def)
  have "d = length a1 - Suc i" using Suc.hyps(2) len by simp
  from Suc.hyps(1)[OF this a1(2)] len i obtain a' where
    "for_each [Suc i..<length a] (ins_body f) a1 = Inr a'" "ins_inv f (length a) arr a'"
    by auto
  then show ?case using i a1(1) by (simp add: upt_conv_Cons)
qed

lemma insertion_sort_key_inv:
  "\<exists>a'. insertion_sort_key f arr = Inr a' \<and> ins_inv f (length arr) arr a'"
proof (cases arr)
  case Nil
  then show ?thesis by (simp add: insertion_sort_key_def ins_inv_def)
next
  case (Cons x xs)
  then have "ins_inv f 1 arr arr" by (simp add: ins_inv_def)
  moreover have "1 \<le> length arr" using Cons by simp
  ultimately show ?thesis
    using ins_loop[of f 1 arr arr] by (simp add: insertion_sort_key_def)
qed

lemma insertion_sort_key_correct:
  "\<exists>ys. insertion_sort_key f arr = Inr ys \<and> sorted (map f ys) \<and> mset ys = mset arr \<and>
     (\<forall>k. filter (\<lambda>x. f x = k) ys = filter (\<lambda>x. f x = k) arr)"
proof -
  from insertion_sort_key_inv[of f arr] obtain ys where
    "insertion_sort_key f arr = Inr ys" "ins_inv f (length arr) arr ys" by blast
  then show ?thesis by (auto simp: ins_inv_def)
qed

section \<open>Correctness of \<^verbatim>\<open>_merge\<close> and \<^verbatim>\<open>merge_sort\<close>\<close>

lemma private_merge_key_tail:
  "private_merge_key f left right =
     (case merge_while f left right 0 0 [] of
        Inl e \<Rightarrow> Inl e
      | Inr (i, j, out) \<Rightarrow> Inr (out @ drop i left @ drop j right))"
  by (simp add: private_merge_key_def split: sum.splits)

lemma merge_while_step:
  "merge_while f left right i j out =
     (if i < length left \<and> j < length right then
        (if f (left ! i) \<le> f (right ! j)
         then merge_while f left right (Suc i) j (out @ [left ! i])
         else merge_while f left right i (Suc j) (out @ [right ! j]))
      else Inr (i, j, out))"
  by (subst merge_while.simps) (simp add: getitem_int)

lemma merge_while_inv:
  "\<exists>i' j' out' M. merge_while f left right i j out = Inr (i', j', out')
     \<and> out' @ drop i' left @ drop j' right = out @ M
     \<and> mset M = mset (drop i left) + mset (drop j right)
     \<and> (sorted (map f (drop i left)) \<longrightarrow> sorted (map f (drop j right)) \<longrightarrow> sorted (map f M))
     \<and> (sorted (map f (drop i left)) \<longrightarrow>
          (\<forall>k. filter (\<lambda>x. f x = k) M =
               filter (\<lambda>x. f x = k) (drop i left) @ filter (\<lambda>x. f x = k) (drop j right)))"
proof (induction "(length left - i) + (length right - j)" arbitrary: i j out rule: less_induct)
  case less
  show ?case
  proof (cases "i < length left \<and> j < length right")
    case False
    then have "merge_while f left right i j out = Inr (i, j, out)"
      by (subst merge_while_step) auto
    moreover from False have "drop i left = [] \<or> drop j right = []" by auto
    ultimately show ?thesis
      by (intro exI[of _ i] exI[of _ j] exI[of _ out] exI[of _ "drop i left @ drop j right"]) auto
  next
    case True
    then have il: "i < length left" and jr: "j < length right" by simp_all
    have dl: "drop i left = left ! i # drop (Suc i) left"
      using il by (simp add: Cons_nth_drop_Suc)
    have dr: "drop j right = right ! j # drop (Suc j) right"
      using jr by (simp add: Cons_nth_drop_Suc)
    have sl_unf: "(\<forall>z\<in>set (drop (Suc i) left). f (left ! i) \<le> f z) \<and> sorted (map f (drop (Suc i) left))"
      if "sorted (map f (drop i left))"
    proof -
      from that have "sorted (map f (left ! i # drop (Suc i) left))" using dl by simp
      then show ?thesis by simp
    qed
    have sr_unf: "(\<forall>z\<in>set (drop (Suc j) right). f (right ! j) \<le> f z) \<and> sorted (map f (drop (Suc j) right))"
      if "sorted (map f (drop j right))"
    proof -
      from that have "sorted (map f (right ! j # drop (Suc j) right))" using dr by simp
      then show ?thesis by simp
    qed
    have set_dl: "set (drop i left) = insert (left ! i) (set (drop (Suc i) left))"
      by (subst dl) simp
    have set_dr: "set (drop j right) = insert (right ! j) (set (drop (Suc j) right))"
      by (subst dr) simp
    show ?thesis
    proof (cases "f (left ! i) \<le> f (right ! j)")
      case le: True
      have eq: "merge_while f left right i j out = merge_while f left right (Suc i) j (out @ [left ! i])"
        using True le by (subst merge_while_step) simp
      have "length left - Suc i + (length right - j) < length left - i + (length right - j)"
        using il by simp
      from less[OF this, of "out @ [left ! i]"] obtain i' j' out' M where M:
        "merge_while f left right (Suc i) j (out @ [left ! i]) = Inr (i', j', out')"
        "out' @ drop i' left @ drop j' right = (out @ [left ! i]) @ M"
        "mset M = mset (drop (Suc i) left) + mset (drop j right)"
        "sorted (map f (drop (Suc i) left)) \<longrightarrow> sorted (map f (drop j right)) \<longrightarrow> sorted (map f M)"
        "sorted (map f (drop (Suc i) left)) \<longrightarrow>
          (\<forall>k. filter (\<lambda>x. f x = k) M =
               filter (\<lambda>x. f x = k) (drop (Suc i) left) @ filter (\<lambda>x. f x = k) (drop j right))"
        by blast
      have "set_mset (mset M) = set_mset (mset (drop (Suc i) left) + mset (drop j right))"
        using M(3) by simp
      then have setM: "set M = set (drop (Suc i) left) \<union> set (drop j right)"
        by simp
      have srt: "sorted (map f (left ! i # M))"
        if sl: "sorted (map f (drop i left))" and sr: "sorted (map f (drop j right))"
      proof -
        have "\<forall>z\<in>set (drop (Suc i) left). f (left ! i) \<le> f z"
          using sl_unf[OF sl] by simp
        moreover have "\<forall>z\<in>set (drop j right). f (right ! j) \<le> f z"
          using sr_unf[OF sr] set_dr by simp
        ultimately have "\<forall>z\<in>set M. f (left ! i) \<le> f z"
          using setM le by (auto intro: order_trans)
        moreover have "sorted (map f M)" using M(4) sl_unf[OF sl] sr by simp
        ultimately show ?thesis by simp
      qed
      have flt: "filter (\<lambda>x. f x = k) (left ! i # M) =
               filter (\<lambda>x. f x = k) (drop i left) @ filter (\<lambda>x. f x = k) (drop j right)"
        if sl: "sorted (map f (drop i left))" for k
      proof -
        have "sorted (map f (drop (Suc i) left))" using sl_unf[OF sl] by simp
        with M(5) have "filter (\<lambda>x. f x = k) M =
               filter (\<lambda>x. f x = k) (drop (Suc i) left) @ filter (\<lambda>x. f x = k) (drop j right)"
          by blast
        then show ?thesis by (subst dl) simp
      qed
      have ms: "mset (left ! i # M) = mset (drop i left) + mset (drop j right)"
        using M(3) by (subst dl) simp
      have 1: "merge_while f left right i j out = Inr (i', j', out')" using eq M(1) by simp
      have 2: "out' @ drop i' left @ drop j' right = out @ (left ! i # M)" using M(2) by simp
      from 1 2 ms srt flt show ?thesis by blast
    next
      case gt: False
      have eq: "merge_while f left right i j out = merge_while f left right i (Suc j) (out @ [right ! j])"
        using True gt by (subst merge_while_step) simp
      have "length left - i + (length right - Suc j) < length left - i + (length right - j)"
        using jr by simp
      from less[OF this, of "out @ [right ! j]"] obtain i' j' out' M where M:
        "merge_while f left right i (Suc j) (out @ [right ! j]) = Inr (i', j', out')"
        "out' @ drop i' left @ drop j' right = (out @ [right ! j]) @ M"
        "mset M = mset (drop i left) + mset (drop (Suc j) right)"
        "sorted (map f (drop i left)) \<longrightarrow> sorted (map f (drop (Suc j) right)) \<longrightarrow> sorted (map f M)"
        "sorted (map f (drop i left)) \<longrightarrow>
          (\<forall>k. filter (\<lambda>x. f x = k) M =
               filter (\<lambda>x. f x = k) (drop i left) @ filter (\<lambda>x. f x = k) (drop (Suc j) right))"
        by blast
      have "set_mset (mset M) = set_mset (mset (drop i left) + mset (drop (Suc j) right))"
        using M(3) by simp
      then have setM: "set M = set (drop i left) \<union> set (drop (Suc j) right)"
        by simp
      have left_ge: "\<forall>z\<in>set (drop i left). f (left ! i) \<le> f z"
        if sl: "sorted (map f (drop i left))"
        using sl_unf[OF sl] set_dl by simp
      have srt: "sorted (map f (right ! j # M))"
        if sl: "sorted (map f (drop i left))" and sr: "sorted (map f (drop j right))"
      proof -
        have "\<forall>z\<in>set (drop (Suc j) right). f (right ! j) \<le> f z"
          using sr_unf[OF sr] by simp
        moreover have "\<forall>z\<in>set (drop i left). f (right ! j) \<le> f z"
          using left_ge[OF sl] gt by (auto simp: not_le intro: less_imp_le less_le_trans)
        ultimately have "\<forall>z\<in>set M. f (right ! j) \<le> f z"
          using setM by auto
        moreover have "sorted (map f M)" using M(4) sl sr_unf[OF sr] by simp
        ultimately show ?thesis by simp
      qed
      have flt: "filter (\<lambda>x. f x = k) (right ! j # M) =
               filter (\<lambda>x. f x = k) (drop i left) @ filter (\<lambda>x. f x = k) (drop j right)"
        if sl: "sorted (map f (drop i left))" for k
      proof -
        from M(5) sl have fM: "filter (\<lambda>x. f x = k) M =
               filter (\<lambda>x. f x = k) (drop i left) @ filter (\<lambda>x. f x = k) (drop (Suc j) right)"
          by blast
        show ?thesis
        proof (cases "f (right ! j) = k")
          case True
          then have "\<forall>z\<in>set (drop i left). f z \<noteq> k"
            using left_ge[OF sl] gt by (auto simp: not_le)
          then have "filter (\<lambda>x. f x = k) (drop i left) = []"
            by (auto simp: filter_empty_conv)
          with fM True show ?thesis by (subst dr) simp
        next
          case False
          with fM show ?thesis by (subst dr) simp
        qed
      qed
      have ms: "mset (right ! j # M) = mset (drop i left) + mset (drop j right)"
        using M(3) by (subst dr) simp
      have 1: "merge_while f left right i j out = Inr (i', j', out')" using eq M(1) by simp
      have 2: "out' @ drop i' left @ drop j' right = out @ (right ! j # M)" using M(2) by simp
      from 1 2 ms srt flt show ?thesis by blast
    qed
  qed
qed

lemma private_merge_key_correct:
  "\<exists>ys. private_merge_key f left right = Inr ys
     \<and> mset ys = mset left + mset right
     \<and> (sorted (map f left) \<longrightarrow> sorted (map f right) \<longrightarrow> sorted (map f ys))
     \<and> (sorted (map f left) \<longrightarrow>
          (\<forall>k. filter (\<lambda>x. f x = k) ys = filter (\<lambda>x. f x = k) left @ filter (\<lambda>x. f x = k) right))"
proof -
  from merge_while_inv[of f left right 0 0 "[]"] obtain i' j' out' M where M:
    "merge_while f left right 0 0 [] = Inr (i', j', out')"
    "out' @ drop i' left @ drop j' right = [] @ M"
    "mset M = mset (drop 0 left) + mset (drop 0 right)"
    "sorted (map f (drop 0 left)) \<longrightarrow> sorted (map f (drop 0 right)) \<longrightarrow> sorted (map f M)"
    "sorted (map f (drop 0 left)) \<longrightarrow>
          (\<forall>k. filter (\<lambda>x. f x = k) M =
               filter (\<lambda>x. f x = k) (drop 0 left) @ filter (\<lambda>x. f x = k) (drop 0 right))"
    by blast
  have "private_merge_key f left right = Inr M"
    using M(1,2) by (simp add: private_merge_key_tail)
  with M(3,4,5) show ?thesis by simp
qed

lemma merge_sort_key_correct:
  "\<exists>ys. merge_sort_key f arr = Inr ys \<and> sorted (map f ys) \<and> mset ys = mset arr \<and>
     (\<forall>k. filter (\<lambda>x. f x = k) ys = filter (\<lambda>x. f x = k) arr)"
proof (induction arr rule: length_induct)
  case (1 arr)
  show ?case
  proof (cases "length arr \<le> 1")
    case True
    then have "sorted (map f arr)"
      by (cases arr) (auto simp: le_Suc_eq)
    moreover have "merge_sort_key f arr = Inr arr"
      using True by (subst merge_sort_key.simps) simp
    ultimately show ?thesis by simp
  next
    case False
    let ?mid = "length arr div 2"
    have "length (take ?mid arr) < length arr" "length (drop ?mid arr) < length arr"
      using False by simp_all
    note lens = this
    from 1[rule_format, OF lens(1)] obtain l where
      l: "merge_sort_key f (take ?mid arr) = Inr l" "sorted (map f l)" "mset l = mset (take ?mid arr)"
         "\<forall>k. filter (\<lambda>x. f x = k) l = filter (\<lambda>x. f x = k) (take ?mid arr)"
      by (elim exE conjE)
    from 1[rule_format, OF lens(2)] obtain r where
      r: "merge_sort_key f (drop ?mid arr) = Inr r" "sorted (map f r)" "mset r = mset (drop ?mid arr)"
         "\<forall>k. filter (\<lambda>x. f x = k) r = filter (\<lambda>x. f x = k) (drop ?mid arr)"
      by (elim exE conjE)
    from private_merge_key_correct[of f l r] l(2) r(2) obtain ys where ys:
      "private_merge_key f l r = Inr ys" "mset ys = mset l + mset r" "sorted (map f ys)"
      "\<forall>k. filter (\<lambda>x. f x = k) ys = filter (\<lambda>x. f x = k) l @ filter (\<lambda>x. f x = k) r"
      by blast
    have "merge_sort_key f arr = Inr ys"
      using False l(1) r(1) ys(1) by (subst merge_sort_key.simps) (simp add: Let_def)
    moreover have "mset ys = mset (take ?mid arr @ drop ?mid arr)"
      using ys(2) l(3) r(3) by (simp del: append_take_drop_id)
    then have "mset ys = mset arr" by simp
    moreover have "filter (\<lambda>x. f x = k) ys = filter (\<lambda>x. f x = k) (take ?mid arr @ drop ?mid arr)" for k
      using ys(4) l(4) r(4) by (simp del: append_take_drop_id)
    then have "filter (\<lambda>x. f x = k) ys = filter (\<lambda>x. f x = k) arr" for k by simp
    ultimately show ?thesis using ys(3) by simp
  qed
qed

section \<open>The hand-written sorts compute the stable sort\<close>

text \<open>
  A list that is sorted by key, is a permutation of the input and keeps the elements of
  each key in their input order is the result of \<^const>\<open>sort_key\<close>: there is only one
  stable sort.
\<close>

lemma stable_sorted_is_sort_key:
  assumes "sorted (map f ys)" "mset ys = mset xs"
    "\<forall>k. filter (\<lambda>x. f x = k) ys = filter (\<lambda>x. f x = k) xs"
  shows "sort_key f xs = ys"
proof (rule properties_for_sort_key)
  show "mset ys = mset xs" by (rule assms(2))
  show "sorted (map f ys)" by (rule assms(1))
  fix k
  have "(\<lambda>x. f k = f x) = (\<lambda>x. f x = f k)" by (auto simp: fun_eq_iff)
  then show "filter (\<lambda>x. f k = f x) ys = filter (\<lambda>x. f k = f x) xs"
    using assms(3) by simp
qed

lemma insertion_sort_key_eq_sort_key: "insertion_sort_key f S = Inr (sort_key f S)"
proof -
  from insertion_sort_key_correct[of f S] obtain ys where ys:
    "insertion_sort_key f S = Inr ys" "sorted (map f ys)" "mset ys = mset S"
    "\<forall>k. filter (\<lambda>x. f x = k) ys = filter (\<lambda>x. f x = k) S"
    by (elim exE conjE)
  from stable_sorted_is_sort_key[OF ys(2,3,4)] ys(1) show ?thesis by simp
qed

lemma merge_sort_key_eq_sort_key: "merge_sort_key f S = Inr (sort_key f S)"
proof -
  from merge_sort_key_correct[of f S] obtain ys where ys:
    "merge_sort_key f S = Inr ys" "sorted (map f ys)" "mset ys = mset S"
    "\<forall>k. filter (\<lambda>x. f x = k) ys = filter (\<lambda>x. f x = k) S"
    by (elim exE conjE)
  from stable_sorted_is_sort_key[OF ys(2,3,4)] ys(1) show ?thesis by simp
qed

section \<open>The heap model computes the values of the list model\<close>

declare ins_while_h.simps [simp del]

lemma alloc_simps [simp]: "alloc h xs = (h @ [xs], length h)"
  by (simp add: alloc_def)

lemma ins_while_h_refines:
  "a < length h \<Longrightarrow>
   ins_while_h f h a j key =
     (case ins_while f (h ! a) j key of
        Inl e \<Rightarrow> Inl e
      | Inr (xs, j') \<Rightarrow> Inr (h[a := xs], j'))"
proof (induction "nat (j + 1)" arbitrary: h j)
  case 0
  then have "j < 0" by simp
  then show ?case
    by (simp add: ins_while_h.simps[of f h a j key] ins_while.simps[of f "h ! a" j key])
next
  case (Suc n)
  then have j: "0 \<le> j" by simp
  show ?case
  proof (cases "getitem (h ! a) j")
    case (Inl e)
    then show ?thesis using j
      by (simp add: ins_while_h.simps[of f h a j key] ins_while.simps[of f "h ! a" j key])
  next
    case x: (Inr x)
    show ?thesis
    proof (cases "f key < f x")
      case False
      then show ?thesis using j x
        by (simp add: ins_while_h.simps[of f h a j key] ins_while.simps[of f "h ! a" j key])
    next
      case True
      show ?thesis
      proof (cases "setitem (h ! a) (j + 1) x")
        case (Inl e)
        then show ?thesis using j x True
          by (simp add: ins_while_h.simps[of f h a j key] ins_while.simps[of f "h ! a" j key])
      next
        case (Inr a')
        have n: "n = nat (j - 1 + 1)" using Suc.hyps(2) by simp
        have len: "a < length (h[a := a'])" using Suc.prems by simp
        have "ins_while_h f (h[a := a']) a (j - 1) key =
                (case ins_while f a' (j - 1) key of
                   Inl e \<Rightarrow> Inl e
                 | Inr (xs, j') \<Rightarrow> Inr (h[a := xs], j'))"
          using Suc.hyps(1)[OF n len] Suc.prems by (simp split: sum.splits)
        then show ?thesis using j x True Inr
          by (simp add: ins_while_h.simps[of f h a j key] ins_while.simps[of f "h ! a" j key])
      qed
    qed
  qed
qed

lemma ins_body_h_refines:
  "a < length h \<Longrightarrow>
   ins_body_h f a i h =
     (case ins_body f i (h ! a) of Inl e \<Rightarrow> Inl e | Inr xs \<Rightarrow> Inr (h[a := xs]))"
  by (auto simp: ins_body_h_def ins_body_def ins_while_h_refines split: sum.splits)

lemma for_each_ins_body_h_refines:
  "a < length h \<Longrightarrow>
   for_each ns (ins_body_h f a) h =
     (case for_each ns (ins_body f) (h ! a) of Inl e \<Rightarrow> Inl e | Inr xs \<Rightarrow> Inr (h[a := xs]))"
proof (induction ns arbitrary: h)
  case Nil
  then show ?case by simp
next
  case (Cons n ns)
  show ?case
  proof (cases "ins_body f n (h ! a)")
    case (Inl e)
    then show ?thesis using Cons.prems by (simp add: ins_body_h_refines)
  next
    case (Inr xs)
    have "a < length (h[a := xs])" using Cons.prems by simp
    from Cons.IH[OF this] Inr Cons.prems show ?thesis
      by (simp add: ins_body_h_refines split: sum.splits)
  qed
qed

lemma insertion_sort_h_refines:
  "insertion_sort_h f h arr =
     (case insertion_sort_key f (h ! arr) of
        Inl e \<Rightarrow> Inl e
      | Inr ys \<Rightarrow> Inr (h @ [ys], length h))"
proof -
  have "length h < length (h @ [h ! arr])" by simp
  from for_each_ins_body_h_refines[OF this, of "[1..<length (h ! arr)]" f]
  show ?thesis
    by (simp add: insertion_sort_h_def insertion_sort_key_def split: sum.splits)
qed

lemma merge_while_h_refines:
  "left < length h \<Longrightarrow> right < length h \<Longrightarrow> out < length h \<Longrightarrow> out \<noteq> left \<Longrightarrow> out \<noteq> right \<Longrightarrow>
   merge_while_h f h left right i j out =
     Some (case merge_while f (h ! left) (h ! right) i j (h ! out) of
             Inl e \<Rightarrow> Inl e
           | Inr (i', j', out') \<Rightarrow> Inr (h[out := out'], i', j'))"
proof (induction "(length (h ! left) - i) + (length (h ! right) - j)" arbitrary: h i j rule: less_induct)
  case less
  note valid = less.prems
  show ?case
  proof (cases "i < length (h ! left) \<and> j < length (h ! right)")
    case False
    then show ?thesis using valid
      by (subst merge_while_h.simps, subst merge_while_step) auto
  next
    case True
    show ?thesis
    proof (cases "f (h ! left ! i) \<le> f (h ! right ! j)")
      case le: True
      let ?h = "h[out := h ! out @ [h ! left ! i]]"
      have same: "?h ! left = h ! left" "?h ! right = h ! right" "?h ! out = h ! out @ [h ! left ! i]"
        using valid by simp_all
      have "length (?h ! left) - Suc i + (length (?h ! right) - j)
              < length (h ! left) - i + (length (h ! right) - j)"
        unfolding same using True by arith
      from less.hyps[OF this] valid same
      have "merge_while_h f ?h left right (Suc i) j out =
              Some (case merge_while f (h ! left) (h ! right) (Suc i) j (h ! out @ [h ! left ! i]) of
                      Inl e \<Rightarrow> Inl e
                    | Inr (i', j', out') \<Rightarrow> Inr (h[out := out'], i', j'))"
        by (simp split: sum.splits)
      then show ?thesis using True le
        by (subst merge_while_h.simps, subst merge_while_step) (simp add: getitem_int)
    next
      case gt: False
      let ?h = "h[out := h ! out @ [h ! right ! j]]"
      have same: "?h ! left = h ! left" "?h ! right = h ! right" "?h ! out = h ! out @ [h ! right ! j]"
        using valid by simp_all
      have "length (?h ! left) - i + (length (?h ! right) - Suc j)
              < length (h ! left) - i + (length (h ! right) - j)"
        unfolding same using True by arith
      from less.hyps[OF this] valid same
      have "merge_while_h f ?h left right i (Suc j) out =
              Some (case merge_while f (h ! left) (h ! right) i (Suc j) (h ! out @ [h ! right ! j]) of
                      Inl e \<Rightarrow> Inl e
                    | Inr (i', j', out') \<Rightarrow> Inr (h[out := out'], i', j'))"
        by (simp split: sum.splits)
      then show ?thesis using True gt
        by (subst merge_while_h.simps, subst merge_while_step) (simp add: getitem_int)
    qed
  qed
qed

lemma extend_slice_fresh:
  "src < length h \<Longrightarrow>
   extend_slice (h @ [xs]) (length h) src i = h @ [xs @ drop i (h ! src)] @ [drop i (h ! src)]"
  by (simp add: extend_slice_def nth_append list_update_append)

lemma extend_slice_fresh2:
  "src < length h \<Longrightarrow>
   extend_slice (h @ xs # g) (length h) src i = h @ (xs @ drop i (h ! src)) # g @ [drop i (h ! src)]"
  by (simp add: extend_slice_def nth_append list_update_append)

lemma private_merge_h_refines:
  assumes "left < length h" "right < length h"
    and "private_merge_key f (h ! left) (h ! right) = Inr ys"
  shows "\<exists>g. private_merge_h f h left right = Some (Inr (h @ ys # g, length h))"
proof -
  obtain i j out where mw: "merge_while f (h ! left) (h ! right) 0 0 [] = Inr (i, j, out)"
    using assms(3) by (auto simp: private_merge_key_def split: sum.splits)
  then have ys: "ys = out @ drop i (h ! left) @ drop j (h ! right)"
    using assms(3) by (simp add: private_merge_key_tail)
  let ?h1 = "h @ [[]]"
  have "merge_while_h f ?h1 left right 0 0 (length h) =
          Some (case merge_while f (?h1 ! left) (?h1 ! right) 0 0 (?h1 ! length h) of
                  Inl e \<Rightarrow> Inl e
                | Inr (i', j', out') \<Rightarrow> Inr (?h1[length h := out'], i', j'))"
    using assms(1,2) by (intro merge_while_h_refines) simp_all
  then have 1: "merge_while_h f ?h1 left right 0 0 (length h) = Some (Inr (h @ [out], i, j))"
    using assms(1,2) mw by (simp add: nth_append)
  let ?h3 = "if i < length (h ! left) then extend_slice (h @ [out]) (length h) left i else h @ [out]"
  obtain g3 where h3: "?h3 = h @ (out @ drop i (h ! left)) # g3"
    using assms(1) by (cases "i < length (h ! left)") (simp_all add: extend_slice_fresh)
  let ?h4 = "if j < length (h ! right) then extend_slice ?h3 (length h) right j else ?h3"
  obtain g4 where h4: "?h4 = h @ (out @ drop i (h ! left) @ drop j (h ! right)) # g4"
    using assms(2) h3 by (cases "j < length (h ! right)") (simp_all add: extend_slice_fresh2)
  have "private_merge_h f h left right = Some (Inr (?h4, length h))"
    using 1 assms(1,2) h3 by (simp add: private_merge_h_def nth_append Let_def)
  with h4 ys show ?thesis by simp
qed

lemma merge_sort_key_Inr: "\<exists>ys. merge_sort_key f xs = Inr ys"
  using merge_sort_key_correct[of f xs] by blast

lemma private_merge_key_Inr: "\<exists>ys. private_merge_key f l r = Inr ys"
  using private_merge_key_correct[of f l r] by blast

lemma merge_sort_h_refines:
  "arr < length h \<Longrightarrow> merge_sort_key f (h ! arr) = Inr ys \<Longrightarrow>
   \<exists>g r. merge_sort_h f h arr = Some (Inr (h @ g, r)) \<and> length h \<le> r \<and> r < length (h @ g)
        \<and> (h @ g) ! r = ys"
proof (induction "length (h ! arr)" arbitrary: h arr ys rule: less_induct)
  case less
  let ?xs = "h ! arr"
  show ?case
  proof (cases "length ?xs \<le> 1")
    case True
    then have "ys = ?xs" using less.prems(2)
      by (subst (asm) merge_sort_key.simps) simp
    moreover have "merge_sort_h f h arr = Some (Inr (h @ [?xs], length h))"
      using True by (subst merge_sort_h.simps) simp
    ultimately show ?thesis
      by (intro exI[of _ "[?xs]"] exI[of _ "length h"]) simp
  next
    case False
    let ?mid = "length ?xs div 2"
    obtain L where L: "merge_sort_key f (take ?mid ?xs) = Inr L"
      using merge_sort_key_Inr by blast
    obtain R where R: "merge_sort_key f (drop ?mid ?xs) = Inr R"
      using merge_sort_key_Inr by blast
    have ys: "private_merge_key f L R = Inr ys"
      using less.prems(2) False L R by (subst (asm) merge_sort_key.simps) (simp add: Let_def)
    let ?h1 = "h @ [take ?mid ?xs]"
    have "length (?h1 ! length h) < length ?xs" using False by simp
    moreover have "length h < length ?h1" by simp
    moreover have "merge_sort_key f (?h1 ! length h) = Inr L" using L by simp
    ultimately obtain g1 left where 1:
      "merge_sort_h f ?h1 (length h) = Some (Inr (?h1 @ g1, left))"
      "length ?h1 \<le> left" "left < length (?h1 @ g1)" "(?h1 @ g1) ! left = L"
      using less.hyps[of ?h1 "length h" L] by blast
    let ?h2 = "?h1 @ g1"
    have h2arr: "?h2 ! arr = ?xs" using less.prems(1) by (simp add: nth_append)
    let ?h3 = "?h2 @ [drop ?mid ?xs]"
    have nth3: "?h3 ! length ?h2 = drop ?mid ?xs" by (rule nth_append_length)
    have "length (?h3 ! length ?h2) < length ?xs" unfolding nth3 using False by simp
    moreover have "length ?h2 < length ?h3" by simp
    moreover have "merge_sort_key f (?h3 ! length ?h2) = Inr R" unfolding nth3 using R by simp
    ultimately obtain g2 right where 2:
      "merge_sort_h f ?h3 (length ?h2) = Some (Inr (?h3 @ g2, right))"
      "length ?h3 \<le> right" "right < length (?h3 @ g2)" "(?h3 @ g2) ! right = R"
      using less.hyps[of ?h3 "length ?h2" R] by blast
    let ?h4 = "?h3 @ g2"
    have left4: "left < length ?h4" "?h4 ! left = L"
      using 1(3,4) by (simp_all add: nth_append del: append_assoc)
    have right4: "right < length ?h4" using 2(3) .
    from private_merge_h_refines[OF left4(1) right4, of f ys] left4(2) 2(4) ys
    obtain g3 where 3: "private_merge_h f ?h4 left right = Some (Inr (?h4 @ ys # g3, length ?h4))"
      by auto
    have "merge_sort_h f h arr = Some (Inr (?h4 @ ys # g3, length ?h4))"
      using False 1(1) 2(1) 3 h2arr
      by (subst merge_sort_h.simps) (simp add: Let_def del: append_assoc)
    then show ?thesis
      by (intro exI[of _ "[take ?mid ?xs] @ g1 @ [drop ?mid ?xs] @ g2 @ ys # g3"]
            exI[of _ "length ?h4"]) (simp add: nth_append)
  qed
qed

section \<open>Lemmas about the generators\<close>

lemma draw_list_total:
  assumes "\<And>g. \<exists>x g'. draw g = (Inr x, g')"
  shows "\<exists>xs g'. draw_list k draw g = (Inr xs, g') \<and> length xs = k"
proof (induction k arbitrary: g)
  case 0
  then show ?case by simp
next
  case (Suc k)
  from assms obtain x g1 where d: "draw g = (Inr x, g1)" by blast
  from Suc[of g1] obtain xs g2 where "draw_list k draw g1 = (Inr xs, g2)" "length xs = k"
    by blast
  with d show ?case by simp
qed

lemma randint_total: "a \<le> b \<Longrightarrow> \<exists>x g'. randint rb a b g = (Inr x, g')"
  by (simp add: randint_def Let_def split: prod.splits)


lemma make_random_total: "\<exists>xs g'. make_random rb n g = (Inr xs, g') \<and> length xs = nat n"
  unfolding make_random_def by (rule draw_list_total) (simp add: randint_total)




lemma swap_count_positive: "swap_count rnd n swaps_ratio = Inr k \<Longrightarrow> 1 \<le> k"
  by (auto simp: swap_count_def split: sum.splits)

lemma swap_count_in_range:
  assumes "rnd (real_of_int n) = Some x" "rnd (x * y) = Some z"
  shows "\<exists>k. swap_count rnd n (Finite y) = Inr k"
  using assms by (simp add: swap_count_def float_of_int_def round_to_def)

lemma swap_count_rounded:
  assumes "n \<noteq> 0" "rnd (real_of_int n) = Some x" "x * y \<noteq> 0" "rnd (x * y) = Some z"
  shows "swap_count rnd n (Finite y) = Inr (max 1 (if z \<ge> 0 then \<lfloor>z\<rfloor> else \<lceil>z\<rceil>))"
  using assms by (simp add: swap_count_def float_of_int_def round_to_def)

lemma swap_count_overflow:
  "n \<noteq> 0 \<Longrightarrow> rnd (real_of_int n) = None \<Longrightarrow> swap_count rnd n swaps_ratio = Inl OverflowError"
  "n \<noteq> 0 \<Longrightarrow> rnd (real_of_int n) = Some x \<Longrightarrow> x * y \<noteq> 0 \<Longrightarrow> rnd (x * y) = None \<Longrightarrow>
   swap_count rnd n (Finite y) = Inl OverflowError"
  "n \<noteq> 0 \<Longrightarrow> rnd (real_of_int n) = Some x \<Longrightarrow> swap_count rnd n NaN = Inl ValueError"
  by (simp_all add: swap_count_def float_of_int_def round_to_def)

lemma swap_count_exact:
  "swap_count Some n (Finite y) =
     Inr (max 1 (if real_of_int n * y \<ge> 0 then \<lfloor>real_of_int n * y\<rfloor> else \<lceil>real_of_int n * y\<rceil>))"
  by (simp add: swap_count_def float_of_int_def round_to_def)

lemma swap_count_zero: "swap_count rnd 0 swaps_ratio = Inr 1 \<or> swap_count rnd 0 swaps_ratio = Inl ValueError"
  by (cases swaps_ratio) (simp_all add: swap_count_def float_of_int_def float_sign_def)


lemma make_nearly_sorted_count_raises:
  "swap_count rnd n swaps_ratio = Inl e \<Longrightarrow> make_nearly_sorted rb rnd n swaps_ratio g = (Inl e, g)"
  by (simp add: make_nearly_sorted_def)

lemma generators_at_zero:
  "make_random rb 0 g = (Inr [], g)" "make_sorted 0 = []" "make_reverse 0 = []"
  "make_many_duplicates rb 0 uniques g = (Inr [], g)"
  by (simp_all add: make_random_def make_sorted_def make_reverse_def make_many_duplicates_def)

lemma make_nearly_sorted_nonpositive_raises:
  assumes "n \<le> 0" "swap_count rnd n swaps_ratio = Inr k"
  shows "make_nearly_sorted rb rnd n swaps_ratio g = (Inl ValueError, g)"
proof -
  from swap_count_positive[OF assms(2)] obtain j where j: "nat k = Suc j"
    by (cases "nat k") simp_all
  show ?thesis using assms
    by (simp add: make_nearly_sorted_def Let_def j swap_once_def randrange_def)
qed

lemma make_nearly_sorted_nonpositive_never_returns:
  assumes "n \<le> 0"
  shows "\<exists>e. make_nearly_sorted rb rnd n swaps_ratio g = (Inl e, g)"
proof (cases "swap_count rnd n swaps_ratio")
  case (Inl e)
  then show ?thesis by (simp add: make_nearly_sorted_count_raises)
next
  case (Inr k)
  from make_nearly_sorted_nonpositive_raises[OF assms this, of rb g] show ?thesis by blast
qed

section \<open>Lemmas about the timer\<close>

text \<open>
  What \<^verbatim>\<open>bench_one\<close> returns, by the signs of \<^verbatim>\<open>repeat\<close> and \<^verbatim>\<open>number\<close>, and what it
  leaves alone: it only advances the count of batches and records them.
\<close>

lemma call_times_ok: "func data = Inr res \<Longrightarrow> call_times k func data = Inr (replicate k (data, res))"
  by (induction k) simp_all

lemma call_times_raises: "func data = Inl e \<Longrightarrow> call_times (Suc k) func data = Inl e"
  by simp

lemma timeit_ok:
  assumes "func data = Inr res"
  shows "timeit E func data number w =
           (Inr (env_elapsed E (ticks w) (batch_calls number data res)),
            w\<lparr>ticks := Suc (ticks w), batches := batches w @ [batch_calls number data res]\<rparr>)"
  using assms call_times_ok[of func data res "nat number"] by (simp add: timeit_def batch_calls_def)

lemma timeit_no_call:
  assumes "number \<le> 0"
  shows "timeit E func data number w =
           (Inr (env_elapsed E (ticks w) []), w\<lparr>ticks := Suc (ticks w), batches := batches w @ [[]]\<rparr>)"
  using assms by (simp add: timeit_def)

lemma timer_repeat_ok:
  assumes "func data = Inr res"
  shows "timer_repeat k E func data number w =
           (Inr (map (\<lambda>i. env_elapsed E i (batch_calls number data res)) [ticks w..<ticks w + k]),
            w\<lparr>ticks := ticks w + k,
              batches := batches w @ replicate k (batch_calls number data res)\<rparr>)"
proof (induction k arbitrary: w)
  case 0
  then show ?case by simp
next
  case (Suc k)
  have "[ticks w..<ticks w + Suc k] = ticks w # [Suc (ticks w)..<Suc (ticks w) + k]"
    by (simp add: upt_conv_Cons)
  then show ?case
    using Suc[of "w\<lparr>ticks := Suc (ticks w), batches := batches w @ [batch_calls number data res]\<rparr>"]
    using assms by (simp add: timeit_ok[of func data res] replicate_append_same)
qed

lemma timer_repeat_no_call:
  assumes "number \<le> 0"
  shows "timer_repeat k E func data number w =
           (Inr (map (\<lambda>i. env_elapsed E i []) [ticks w..<ticks w + k]),
            w\<lparr>ticks := ticks w + k, batches := batches w @ replicate k []\<rparr>)"
proof (induction k arbitrary: w)
  case 0
  then show ?case by simp
next
  case (Suc k)
  have "[ticks w..<ticks w + Suc k] = ticks w # [Suc (ticks w)..<Suc (ticks w) + k]"
    by (simp add: upt_conv_Cons)
  then show ?case
    using Suc[of "w\<lparr>ticks := Suc (ticks w), batches := batches w @ [[]]\<rparr>"]
    by (simp add: timeit_no_call[OF assms] replicate_append_same)
qed

lemma bench_one_ok:
  assumes "0 < repeat" "0 < number" "func data = Inr res"
  shows "bench_one E func data repeat number w =
           (Inr (mean_s E (ticks w) (batch_calls number data res) repeat number),
            w\<lparr>ticks := ticks w + nat repeat,
              batches := batches w @ bench_batches repeat number data res\<rparr>)"
  using assms timer_repeat_ok[of func data res "nat repeat" E number w]
  by (simp add: bench_one_def mean_s_def bench_batches_def)

lemma bench_one_nonpositive_repeat:
  "repeat \<le> 0 \<Longrightarrow> bench_one E func data repeat number w = (Inl ZeroDivisionError, w)"
  by (simp add: bench_one_def)

lemma bench_one_zero_number:
  "0 < repeat \<Longrightarrow> bench_one E func data repeat 0 w =
     (Inl ZeroDivisionError,
      w\<lparr>ticks := ticks w + nat repeat, batches := batches w @ replicate (nat repeat) []\<rparr>)"
  using timer_repeat_no_call[of 0 "nat repeat" E func data w]
  by (simp add: bench_one_def)

lemma bench_one_negative_number:
  "0 < repeat \<Longrightarrow> number < 0 \<Longrightarrow> bench_one E func data repeat number w =
     (Inr (mean_s E (ticks w) [] repeat number),
      w\<lparr>ticks := ticks w + nat repeat, batches := batches w @ replicate (nat repeat) []\<rparr>)"
  using timer_repeat_no_call[of number "nat repeat" E func data w]
  by (simp add: bench_one_def mean_s_def)

lemma bench_one_raises:
  assumes "0 < repeat" "0 < number" "func data = Inl e"
  shows "bench_one E func data repeat number w = (Inl e, w)"
proof -
  obtain k where k: "nat repeat = Suc k" using assms(1) by (cases "nat repeat") simp_all
  obtain j where j: "nat number = Suc j" using assms(2) by (cases "nat number") simp_all
  show ?thesis using assms(3) by (simp add: bench_one_def timeit_def k j)
qed

lemma bench_one_cases:
  "bench_one E func data repeat number w =
     (if repeat \<le> 0 then (Inl ZeroDivisionError, w)
      else if 0 < number \<and> isl (func data) then (Inl (projl (func data)), w)
      else if number = 0 then
        (Inl ZeroDivisionError,
         w\<lparr>ticks := ticks w + nat repeat, batches := batches w @ replicate (nat repeat) []\<rparr>)
      else (Inr (mean_s E (ticks w) (batch_calls number data (projr (func data))) repeat number),
            w\<lparr>ticks := ticks w + nat repeat,
              batches := batches w @ bench_batches repeat number data (projr (func data))\<rparr>))"
proof (cases "repeat \<le> 0")
  case True
  then show ?thesis by (simp add: bench_one_nonpositive_repeat)
next
  case False
  then have r: "0 < repeat" by simp
  show ?thesis
  proof (cases "0 < number")
    case True
    show ?thesis
    proof (cases "func data")
      case (Inl e)
      with r True show ?thesis by (simp add: bench_one_raises)
    next
      case (Inr res)
      with r True show ?thesis
        using bench_one_ok[of repeat number func data res E w] by simp
    qed
  next
    case False
    then have "number = 0 \<or> number < 0" by auto
    with r False show ?thesis
      by (auto simp: bench_one_zero_number bench_one_negative_number batch_calls_def
          bench_batches_def)
  qed
qed

lemma bench_one_nonzero:
  assumes "0 < repeat" "number \<noteq> 0" "func data = Inr res"
  shows "bench_one E func data repeat number w =
           (Inr (mean_s E (ticks w) (batch_calls number data res) repeat number),
            w\<lparr>ticks := ticks w + nat repeat,
              batches := batches w @ bench_batches repeat number data res\<rparr>)"
  using assms by (simp add: bench_one_cases)




section \<open>Lemmas about \<^verbatim>\<open>run_bench\<close>\<close>

lemma sorts_return:
  "\<exists>ys. insertion_sort xs = Inr ys" "\<exists>ys. merge_sort xs = Inr ys"
  by (simp_all add: insertion_sort_def merge_sort_def insertion_sort_key_eq_sort_key
      merge_sort_key_eq_sort_key)

lemma sorts_not_isl [simp]: "\<not> isl (insertion_sort xs)" "\<not> isl (merge_sort xs)"
  using sorts_return[of xs] by auto

lemma algos_return: "algo \<in> set algos \<Longrightarrow> \<exists>ys. snd algo data = Inr ys"
  using sorts_return by (auto simp: algos_def)

lemma sorts_results:
  "insertion_sort data = Inr (timsort_sorted data)" "merge_sort data = Inr (timsort_sorted data)"
  by (simp_all add: insertion_sort_def merge_sort_def timsort_sorted_def timsort_sorted_key_def
      insertion_sort_key_eq_sort_key merge_sort_key_eq_sort_key)

lemma U_neq [simp]:
  "U ''Insertion'' \<noteq> U ''Merge''" "U ''Insertion'' \<noteq> U ''Timsort(sorted)''"
  "U ''Merge'' \<noteq> U ''Timsort(sorted)''" "U ''Merge'' \<noteq> U ''Insertion''"
  "U ''Timsort(sorted)'' \<noteq> U ''Insertion''" "U ''Timsort(sorted)'' \<noteq> U ''Merge''"
  by (simp_all add: U_def)


lemma for_w_total:
  assumes step: "\<And>i s w. i \<in> set xs \<Longrightarrow> I w \<Longrightarrow> \<exists>s' w'. body i s w = (Inr s', w') \<and> I w'"
    and "I w"
  shows "\<exists>s' w'. for_w xs body s w = (Inr s', w') \<and> I w'"
  using assms
proof (induction xs arbitrary: s w)
  case Nil
  then show ?case by simp
next
  case (Cons i xs)
  from Cons.prems(1)[of i w s] Cons.prems(2) obtain s1 w1 where
    b: "body i s w = (Inr s1, w1)" "I w1" by auto
  have "\<exists>s' w'. for_w xs body s1 w1 = (Inr s', w') \<and> I w'"
  proof (rule Cons.IH[OF _ b(2)])
    fix j s2 w2
    assume "j \<in> set xs" "I w2"
    then show "\<exists>s' w'. body j s2 w2 = (Inr s', w') \<and> I w'"
      using Cons.prems(1)[of j w2 s2] by simp
  qed
  with b(1) show ?case by simp
qed

lemma for_w_rel:
  assumes step: "\<And>i s1 s2 w1 w2. i \<in> set xs \<Longrightarrow> S s1 s2 \<Longrightarrow> R w1 w2 \<Longrightarrow>
                   rel_prod (rel_sum (=) S) R (b1 i s1 w1) (b2 i s2 w2)"
    and "S s1 s2" "R w1 w2"
  shows "rel_prod (rel_sum (=) S) R (for_w xs b1 s1 w1) (for_w xs b2 s2 w2)"
  using assms
proof (induction xs arbitrary: s1 s2 w1 w2)
  case Nil
  then show ?case by simp
next
  case (Cons i xs)
  obtain r1 v1 where 1: "b1 i s1 w1 = (r1, v1)" by (cases "b1 i s1 w1")
  obtain r2 v2 where 2: "b2 i s2 w2 = (r2, v2)" by (cases "b2 i s2 w2")
  from Cons.prems(1)[of i s1 s2 w1 w2] Cons.prems(2,3) 1 2
  have rel: "rel_sum (=) S r1 r2" "R v1 v2" by simp_all
  show ?case
  proof (cases r1)
    case (Inl e)
    with rel 1 2 show ?thesis by (cases r2) simp_all
  next
    case (Inr t1)
    with rel(1) obtain t2 where t2: "r2 = Inr t2" "S t1 t2" by (cases r2) simp_all
    have "rel_prod (rel_sum (=) S) R (for_w xs b1 t1 v1) (for_w xs b2 t2 v2)"
    proof (rule Cons.IH[OF _ t2(2) rel(2)])
      fix j u1 u2 x1 x2
      assume "j \<in> set xs" "S u1 u2" "R x1 x2"
      then show "rel_prod (rel_sum (=) S) R (b1 j u1 x1) (b2 j u2 x2)"
        using Cons.prems(1)[of j u1 u2 x1 x2] by simp
    qed
    with 1 2 Inr t2(1) show ?thesis by simp
  qed
qed


lemma time_algos_all:
  assumes "0 < repeat" "number \<noteq> 0" "n \<le> include_insertion_upper_n"
  shows "for_w algos (time_algo E n name data repeat number include_insertion_upper_n) times_init w =
     (Inr (times_init(U ''Insertion'' \<mapsto> Some (mean_ms E (ticks w) data repeat number),
                      U ''Merge'' \<mapsto> Some (mean_ms E (ticks w + nat repeat) data repeat number),
                      U ''Timsort(sorted)'' \<mapsto> Some (mean_ms E (ticks w + nat repeat + nat repeat) data repeat number))),
      w\<lparr>ticks := ticks w + nat repeat + nat repeat + nat repeat,
        timed := timed w @ [(U ''Insertion'', n, name), (U ''Merge'', n, name), (U ''Timsort(sorted)'', n, name)],
        batches := batches w @ bench_batches repeat number data (timsort_sorted data) @
                   bench_batches repeat number data (timsort_sorted data) @
                   bench_batches repeat number data (timsort_sorted data)\<rparr>)"
  using assms
  by (simp add: algos_def time_algo_def mean_ms_def
      bench_one_nonzero[of repeat number merge_sort data "timsort_sorted data" E, OF assms(1,2) sorts_results(2)]
      bench_one_nonzero[of repeat number insertion_sort data "timsort_sorted data" E, OF assms(1,2) sorts_results(1)]
      bench_one_nonzero[of repeat number "\<lambda>xs. Inr (timsort_sorted xs)" data "timsort_sorted data" E, OF assms(1,2)])

lemma time_algos_nonpositive_repeat:
  assumes "repeat \<le> 0"
  shows "\<exists>w'. for_w algos (time_algo E n name data repeat number upper) times_init w =
           (Inl ZeroDivisionError, w') \<and> stdout w' = stdout w"
  using assms
  by (simp add: algos_def time_algo_def bench_one_nonpositive_repeat)






lemma bench_row_all:
  assumes "0 < repeat" "number \<noteq> 0" "gen n (rng w) = (Inr data, g')" "n \<le> upper"
  shows "bench_row E repeat number upper n (name, gen) w =
    (Inr (),
     w\<lparr>rng := g', generated := generated w @ [(name, n, data)],
       ticks := ticks w + nat repeat + nat repeat + nat repeat,
       timed := timed w @ [(U ''Insertion'', n, name), (U ''Merge'', n, name), (U ''Timsort(sorted)'', n, name)],
       batches := batches w @ bench_batches repeat number data (timsort_sorted data) @
                  bench_batches repeat number data (timsort_sorted data) @
                  bench_batches repeat number data (timsort_sorted data),
       stdout := stdout w @
         [row_line n name (env_fmt2 E (mean_ms E (ticks w) data repeat number))
            (env_fmt2 E (mean_ms E (ticks w + nat repeat) data repeat number))
            (env_fmt2 E (mean_ms E (ticks w + nat repeat + nat repeat) data repeat number))]\<rparr>)"
  using assms(3) time_algos_all[OF assms(1,2,4), of E name data
      "w\<lparr>rng := g', generated := generated w @ [(name, n, data)]\<rparr>"]
  by (simp add: bench_row_def cell_or_dash_def cell_def times_init_def py_print_def)

lemma bench_row_eval:
  assumes "0 < repeat" "number \<noteq> 0" "n \<le> upper"
  shows "bench_row E repeat number upper n (name, gen) w =
    (case gen n (rng w) of
       (Inl e, g') \<Rightarrow> (Inl e, w\<lparr>rng := g'\<rparr>)
     | (Inr data, g') \<Rightarrow>
        (Inr (),
         w\<lparr>rng := g', generated := generated w @ [(name, n, data)],
           ticks := ticks w + nat repeat + nat repeat + nat repeat,
           timed := timed w @ [(U ''Insertion'', n, name), (U ''Merge'', n, name), (U ''Timsort(sorted)'', n, name)],
           batches := batches w @ bench_batches repeat number data (timsort_sorted data) @
                      bench_batches repeat number data (timsort_sorted data) @
                      bench_batches repeat number data (timsort_sorted data),
           stdout := stdout w @
             [row_line n name (env_fmt2 E (mean_ms E (ticks w) data repeat number))
                (env_fmt2 E (mean_ms E (ticks w + nat repeat) data repeat number))
                (env_fmt2 E (mean_ms E (ticks w + nat repeat + nat repeat) data repeat number))]\<rparr>))"
proof (cases "gen n (rng w)")
  case (Pair rd g')
  show ?thesis
  proof (cases rd)
    case (Inl e)
    with Pair show ?thesis by (simp add: bench_row_def)
  next
    case (Inr data)
    with Pair have "gen n (rng w) = (Inr data, g')" by simp
    from bench_row_all[where gen=gen and n=n and w=w, OF assms(1,2) this assms(3)] Pair Inr
    show ?thesis by simp
  qed
qed





section \<open>Lemmas about \<^verbatim>\<open>main\<close>\<close>

lemma map_err_isl: "isl (map_err conv xs) \<longleftrightarrow> (\<exists>x\<in>set xs. isl (conv x))"
  by (induction xs) (auto split: sum.splits)

lemma parse_sizes_isl:
  "isl (parse_sizes E s) \<longleftrightarrow> (\<exists>x\<in>set (split_on 44 s). strip_nonempty x \<and> isl (env_int E x))"
  by (auto simp: parse_sizes_def map_err_isl)

lemma main_parse_error:
  "parse_sizes E (args_sizes a) = Inl e \<Longrightarrow> main E a w = (Inl e, w\<lparr>rng := env_seed E 42\<rparr>)"
  by (simp add: main_def py_seed_def)

lemma prints_after_print: "prints_after base w \<Longrightarrow> prints_after base (py_print s w)"
  by (auto simp: prints_after_def py_print_def)

lemma scaling_step_total:
  assumes "prints_after base w" "\<exists>ys. snd algo data = Inr ys" "\<And>data. \<exists>ys. snd algo data = Inr ys"
  shows "\<exists>s' w'. scaling_step E algo n prev_t w = (Inr s', w') \<and> prints_after base w'"
proof -
  obtain algo_name func where a: "algo = (algo_name, func)" by (cases algo)
  obtain data g' where d: "make_random (env_randbelow E) n (rng w) = (Inr data, g')"
    using make_random_total[of "env_randbelow E" n "rng w"] by blast
  obtain ys where f: "func data = Inr ys" using assms(3)[of data] a by auto
  let ?w1 = "w\<lparr>rng := g', generated := generated w @ [(U ''random'', n, data)],
                 timed := timed w @ [(algo_name, n, U ''random'')]\<rparr>"
  let ?w2 = "?w1\<lparr>ticks := ticks ?w1 + nat 3, batches := batches ?w1 @ bench_batches 3 1 data ys\<rparr>"
  have b: "bench_one E func data 3 1 ?w1 = (Inr (mean_s E (ticks ?w1) (batch_calls 1 data ys) 3 1), ?w2)"
    by (rule bench_one_ok[of 3 1 func data ys E ?w1]) (simp_all add: f)
  have "prints_after base ?w2"
    using assms(1) by (simp add: prints_after_def)
  then show ?thesis using a d b
    by (simp add: scaling_step_def Let_def prints_after_print del: upt_Suc)
qed

lemma scaling_algo_total:
  fixes E :: "'g env"
  assumes "prints_after base w" "algo \<in> set algos"
  shows "\<exists>s' w'. scaling_algo E algo u w = (Inr s', w') \<and> prints_after base w'"
proof -
  let ?ns = "if fst algo = U ''Insertion'' then [1000, 2000, 4000, 8000]
                else [2000, 4000, 8000, 16000::int]"
  let ?w1 = "py_print (U ''  '' @ fst algo @ U '':'') w"
  have "\<exists>s' w'. for_w ?ns (scaling_step E algo) None ?w1 = (Inr s', w') \<and> prints_after base w'"
  proof (rule for_w_total)
    show "prints_after base ?w1" using assms(1) by (rule prints_after_print)
  next
    fix i s and w2 :: "'g world"
    assume "prints_after base w2"
    then show "\<exists>s' w'. scaling_step E algo i s w2 = (Inr s', w') \<and> prints_after base w'"
      using algos_return[OF assms(2)] by (intro scaling_step_total) auto
  qed
  then show ?thesis by (auto simp: scaling_algo_def Let_def)
qed

lemma analyze_scaling_total:
  fixes E :: "'g env"
  assumes "prints_after base w"
  shows "\<exists>w'. analyze_scaling E w = (Inr (), w') \<and> prints_after base w'"
proof -
  have "\<exists>s' w'. for_w algos (scaling_algo E) ()
          (py_print (10 # U ''Empirical scaling on random data (Insertion vs Merge vs Timsort)'') w)
            = (Inr s', w') \<and> prints_after base w'"
  proof (rule for_w_total)
    show "prints_after base (py_print (10 # U ''Empirical scaling on random data (Insertion vs Merge vs Timsort)'') w)"
      using assms by (rule prints_after_print)
  next
    fix i s and w2 :: "'g world"
    assume "i \<in> set algos" "prints_after base w2"
    then show "\<exists>s' w'. scaling_algo E i s w2 = (Inr s', w') \<and> prints_after base w'"
      by (intro scaling_algo_total)
  qed
  then show ?thesis by (simp add: analyze_scaling_def)
qed

lemma main_no_sizes:
  assumes "filter strip_nonempty (split_on 44 (args_sizes a)) = []"
  shows "\<exists>w' rest. main E a w = (Inr 0, w') \<and>
           stdout w' = stdout w @ header_lines (args_repeat a) (args_number a) @ rest \<and>
           (args_no_scaling a \<longrightarrow> rest = [] \<and> timed w' = timed w \<and> ticks w' = ticks w \<and>
              batches w' = batches w)"
proof -
  have p: "parse_sizes E (args_sizes a) = Inr []" using assms by (simp add: parse_sizes_def)
  let ?w1 = "w\<lparr>rng := env_seed E 42, stdout := stdout w @ header_lines (args_repeat a) (args_number a)\<rparr>"
  have r: "run_bench E [] (args_repeat a) (args_number a) (args_ins_max a) (w\<lparr>rng := env_seed E 42\<rparr>) = (Inr (), ?w1)"
    by (simp add: run_bench_def)
  show ?thesis
  proof (cases "args_no_scaling a")
    case True
    with p r have "main E a w = (Inr 0, ?w1)" by (simp add: main_def py_seed_def)
    with True show ?thesis by (intro exI[of _ ?w1] exI[of _ "[]"]) simp
  next
    case False
    have "prints_after (stdout w @ header_lines (args_repeat a) (args_number a)) ?w1"
      by (simp add: prints_after_def)
    from analyze_scaling_total[OF this, of E] obtain w2 where
      w2: "analyze_scaling E ?w1 = (Inr (), w2)"
          "prints_after (stdout w @ header_lines (args_repeat a) (args_number a)) w2"
      by blast
    from p r w2(1) False have "main E a w = (Inr 0, w2)" by (simp add: main_def py_seed_def)
    with w2(2) False show ?thesis by (auto simp: prints_after_def)
  qed
qed

lemma main_nonpositive_repeat:
  assumes "args_repeat a \<le> 0" "parse_sizes E (args_sizes a) = Inr (n # ns)"
  shows "\<exists>w'. main E a w = (Inl ZeroDivisionError, w') \<and>
           stdout w' = stdout w @ header_lines (args_repeat a) (args_number a)"
proof -
  let ?w0 = "w\<lparr>rng := env_seed E 42, stdout := stdout w @ header_lines (args_repeat a) (args_number a)\<rparr>"
  obtain data g' where d: "make_random (env_randbelow E) n (rng ?w0) = (Inr data, g')"
    using make_random_total[of "env_randbelow E" n "rng ?w0"] by blast
  let ?w1 = "?w0\<lparr>rng := g', generated := generated ?w0 @ [(U ''random'', n, data)]\<rparr>"
  from time_algos_nonpositive_repeat[OF assms(1), of E n "U ''random''" data "args_number a"
      "args_ins_max a" ?w1]
  obtain w2 where t: "for_w algos (time_algo E n (U ''random'') data (args_repeat a) (args_number a)
      (args_ins_max a)) times_init ?w1 = (Inl ZeroDivisionError, w2)" "stdout w2 = stdout ?w1"
    by blast
  have "bench_row E (args_repeat a) (args_number a) (args_ins_max a) n
          (U ''random'', make_random (env_randbelow E)) ?w0 = (Inl ZeroDivisionError, w2)"
    using d t(1) by (simp add: bench_row_def)
  then have "run_bench E (n # ns) (args_repeat a) (args_number a) (args_ins_max a)
          (w\<lparr>rng := env_seed E 42\<rparr>) = (Inl ZeroDivisionError, w2)"
    by (simp add: run_bench_def DATASETS_def)
  then have "main E a w = (Inl ZeroDivisionError, w2)"
    using assms(2) by (simp add: main_def py_seed_def)
  with t(2) show ?thesis by simp
qed

section \<open>Two runs with the same arguments\<close>

text \<open>
  Each step of the program takes states that agree on the data of a run to states that
  agree on it, and raises in one run exactly when it raises in the other.
\<close>

lemma bench_one_rel:
  assumes "same_data w1 w2"
  shows "rel_prod (rel_sum (=) any) same_data
           (bench_one E1 func data repeat number w1) (bench_one E2 func data repeat number w2)"
  using assms by (simp add: bench_one_cases same_data_def)

lemma same_data_ghost:
  "same_data w1 w2 \<Longrightarrow>
   same_data (w1\<lparr>timed := t1\<rparr>) (w2\<lparr>timed := t2\<rparr>)"
  "same_data w1 w2 \<Longrightarrow> same_data (py_print s1 w1) (py_print s2 w2)"
  by (simp_all add: same_data_def py_print_def)

lemma time_algo_rel:
  assumes "same_shape t1 t2" "same_data w1 w2"
  shows "rel_prod (rel_sum (=) same_shape) same_data
           (time_algo E1 n name data repeat number upper algo t1 w1)
           (time_algo E2 n name data repeat number upper algo t2 w2)"
proof -
  obtain algo_name func where a: "algo = (algo_name, func)" by (cases algo)
  show ?thesis
  proof (cases "algo_name = U ''Insertion'' \<and> n > upper")
    case True
    with a assms show ?thesis by (simp add: time_algo_def)
  next
    case False
    let ?v1 = "w1\<lparr>timed := timed w1 @ [(algo_name, n, name)]\<rparr>"
    let ?v2 = "w2\<lparr>timed := timed w2 @ [(algo_name, n, name)]\<rparr>"
    have sd: "same_data ?v1 ?v2" using assms(2) by (rule same_data_ghost)
    obtain r1 u1 where 1: "bench_one E1 func data repeat number ?v1 = (r1, u1)"
      by (cases "bench_one E1 func data repeat number ?v1")
    obtain r2 u2 where 2: "bench_one E2 func data repeat number ?v2 = (r2, u2)"
      by (cases "bench_one E2 func data repeat number ?v2")
    from bench_one_rel[OF sd, of E1 func data repeat number E2] 1 2
    have rel: "rel_sum (=) any r1 r2" "same_data u1 u2" by simp_all
    have upd: "same_shape (t1(algo_name \<mapsto> Some x)) (t2(algo_name \<mapsto> Some y))" for x y
      using assms(1) by (simp add: same_shape_def)
    have e1: "time_algo E1 n name data repeat number upper algo t1 w1 =
        (case bench_one E1 func data repeat number ?v1 of
           (Inl e, w') \<Rightarrow> (Inl e, w')
         | (Inr t, w') \<Rightarrow> (Inr (t1(algo_name \<mapsto> Some (t * 1000))), w'))"
      using False by (auto simp: time_algo_def a)
    have e2: "time_algo E2 n name data repeat number upper algo t2 w2 =
        (case bench_one E2 func data repeat number ?v2 of
           (Inl e, w') \<Rightarrow> (Inl e, w')
         | (Inr t, w') \<Rightarrow> (Inr (t2(algo_name \<mapsto> Some (t * 1000))), w'))"
      using False by (auto simp: time_algo_def a)
    show ?thesis unfolding e1 e2 using 1 2 rel upd
      by (cases r1; cases r2) simp_all
  qed
qed

lemma cell_rel:
  assumes "same_shape t1 t2"
  shows "rel_sum (=) any (cell E1 t1 k) (cell E2 t2 k)"
    "rel_sum (=) any (cell_or_dash E1 t1 k) (cell_or_dash E2 t2 k)"
proof -
  from assms have r: "rel_option (rel_option any) (t1 k) (t2 k)" by (simp add: same_shape_def)
  show "rel_sum (=) any (cell E1 t1 k) (cell E2 t2 k)"
    using r by (cases "t1 k"; cases "t2 k")
      (auto simp: cell_def option_rel_Some1 option_rel_Some2 split: option.splits)
  show "rel_sum (=) any (cell_or_dash E1 t1 k) (cell_or_dash E2 t2 k)"
    using r by (cases "t1 k"; cases "t2 k")
      (auto simp: cell_or_dash_def option_rel_Some1 option_rel_Some2 split: option.splits)
qed

lemma bench_row_rel:
  fixes w1 w2 :: "'a world"
  assumes "same_data w1 w2"
  shows "rel_prod (rel_sum (=) any) same_data
           (bench_row E1 repeat number upper n dataset w1)
           (bench_row E2 repeat number upper n dataset w2)"
proof -
  obtain name gen where d: "dataset = (name, gen)" by (cases dataset)
  from assms have g: "rng w1 = rng w2" "generated w1 = generated w2" by (simp_all add: same_data_def)
  obtain rd g' where gen: "gen n (rng w2) = (rd, g')" by (cases "gen n (rng w2)")
  show ?thesis
  proof (cases rd)
    case (Inl e)
    with d g gen show ?thesis by (simp add: bench_row_def same_data_def)
  next
    case (Inr data)
    let ?v1 = "w1\<lparr>rng := g', generated := generated w1 @ [(name, n, data)]\<rparr>"
    let ?v2 = "w2\<lparr>rng := g', generated := generated w2 @ [(name, n, data)]\<rparr>"
    have sd: "same_data ?v1 ?v2" using g by (simp add: same_data_def)
    have s0: "same_shape times_init times_init"
      by (simp add: same_shape_def option.rel_refl)
    obtain r1 u1 where 1: "for_w algos (time_algo E1 n name data repeat number upper) times_init ?v1 = (r1, u1)"
      by (cases "for_w algos (time_algo E1 n name data repeat number upper) times_init ?v1")
    obtain r2 u2 where 2: "for_w algos (time_algo E2 n name data repeat number upper) times_init ?v2 = (r2, u2)"
      by (cases "for_w algos (time_algo E2 n name data repeat number upper) times_init ?v2")
    have "rel_prod (rel_sum (=) same_shape) same_data
            (for_w algos (time_algo E1 n name data repeat number upper) times_init ?v1)
            (for_w algos (time_algo E2 n name data repeat number upper) times_init ?v2)"
    proof (rule for_w_rel[where S=same_shape and R=same_data])
      show "same_shape times_init times_init" by (rule s0)
      show "same_data ?v1 ?v2" by (rule sd)
    next
      fix i s1 s2 and x1 x2 :: "'a world"
      assume "same_shape s1 s2" "same_data x1 x2"
      then show "rel_prod (rel_sum (=) same_shape) same_data
          (time_algo E1 n name data repeat number upper i s1 x1)
          (time_algo E2 n name data repeat number upper i s2 x2)"
        by (rule time_algo_rel)
    qed
    with 1 2 have rel: "rel_sum (=) same_shape r1 r2" "same_data u1 u2" by simp_all
    show ?thesis
    proof (cases r1)
      case e: (Inl e)
      with rel have "r2 = Inl e" by (cases r2) simp_all
      with e d g gen Inr 1 2 rel(2) show ?thesis by (simp add: bench_row_def)
    next
      case t1: (Inr t1)
      with rel obtain t2 where t2: "r2 = Inr t2" "same_shape t1 t2" by (cases r2) simp_all
      note c = cell_rel[OF t2(2), of E1 _ E2]
      have pr: "same_data (py_print s1 u1) (py_print s2 u2)" for s1 s2
        using rel(2) by (rule same_data_ghost)
      have "rel_prod (rel_sum (=) any) same_data
        (case cell_or_dash E1 t1 (U ''Insertion'') of
           Inl e \<Rightarrow> (Inl e, u1)
         | Inr ins \<Rightarrow>
             (case cell E1 t1 (U ''Merge'') of
                Inl e \<Rightarrow> (Inl e, u1)
              | Inr mer \<Rightarrow>
                  (case cell E1 t1 (U ''Timsort(sorted)'') of
                     Inl e \<Rightarrow> (Inl e, u1)
                   | Inr tim \<Rightarrow> (Inr (), py_print (row_line n name ins mer tim) u1))))
        (case cell_or_dash E2 t2 (U ''Insertion'') of
           Inl e \<Rightarrow> (Inl e, u2)
         | Inr ins \<Rightarrow>
             (case cell E2 t2 (U ''Merge'') of
                Inl e \<Rightarrow> (Inl e, u2)
              | Inr mer \<Rightarrow>
                  (case cell E2 t2 (U ''Timsort(sorted)'') of
                     Inl e \<Rightarrow> (Inl e, u2)
                   | Inr tim \<Rightarrow> (Inr (), py_print (row_line n name ins mer tim) u2))))"
        using c(2)[of "U ''Insertion''"] c(1)[of "U ''Merge''"] c(1)[of "U ''Timsort(sorted)''"] rel(2) pr
        by (auto split: sum.splits)
      with t1 t2(1) d g gen Inr 1 2 show ?thesis by (simp add: bench_row_def)
    qed
  qed
qed

lemma run_bench_rel:
  fixes w1 w2 :: "'g world"
  assumes "same_data w1 w2" "env_randbelow E1 = env_randbelow E2" "env_round E1 = env_round E2"
  shows "rel_prod (rel_sum (=) any) same_data
           (run_bench E1 ns repeat number upper w1) (run_bench E2 ns repeat number upper w2)"
  unfolding run_bench_def assms(2,3)
proof (rule for_w_rel[where S=any and R=same_data])
  show "same_data (w1\<lparr>stdout := stdout w1 @ header_lines repeat number\<rparr>)
          (w2\<lparr>stdout := stdout w2 @ header_lines repeat number\<rparr>)"
    using assms(1) by (simp add: same_data_def)
  show True by simp
next
  fix n and s1 s2 :: unit and x1 x2 :: "'g world"
  assume sd: "same_data x1 x2"
  show "rel_prod (rel_sum (=) any) same_data
          (for_w (DATASETS (env_randbelow E2) (env_round E2)) (\<lambda>dataset u. bench_row E1 repeat number upper n dataset) s1 x1)
          (for_w (DATASETS (env_randbelow E2) (env_round E2)) (\<lambda>dataset u. bench_row E2 repeat number upper n dataset) s2 x2)"
  proof (rule for_w_rel[where S=any and R=same_data])
    show "same_data x1 x2" by (rule sd)
    show True by simp
  next
    fix d and t1 t2 :: unit and y1 y2 :: "'g world"
    assume "same_data y1 y2"
    then show "rel_prod (rel_sum (=) any) same_data
            (bench_row E1 repeat number upper n d y1) (bench_row E2 repeat number upper n d y2)"
      by (rule bench_row_rel)
  qed
qed

lemma scaling_step_rel:
  fixes w1 w2 :: "'g world"
  assumes "same_data w1 w2" "env_randbelow E1 = env_randbelow E2"
  shows "rel_prod (rel_sum (=) any) same_data
           (scaling_step E1 algo n p1 w1) (scaling_step E2 algo n p2 w2)"
proof -
  obtain algo_name func where a: "algo = (algo_name, func)" by (cases algo)
  from assms have g: "rng w1 = rng w2" "generated w1 = generated w2" by (simp_all add: same_data_def)
  obtain rd g' where gen: "make_random (env_randbelow E2) n (rng w2) = (rd, g')"
    by (cases "make_random (env_randbelow E2) n (rng w2)")
  show ?thesis
  proof (cases rd)
    case (Inl e)
    with a g gen assms(2) show ?thesis by (simp add: scaling_step_def same_data_def)
  next
    case (Inr data)
    let ?v1 = "w1\<lparr>rng := g', generated := generated w1 @ [(U ''random'', n, data)],
                   timed := timed w1 @ [(algo_name, n, U ''random'')]\<rparr>"
    let ?v2 = "w2\<lparr>rng := g', generated := generated w2 @ [(U ''random'', n, data)],
                   timed := timed w2 @ [(algo_name, n, U ''random'')]\<rparr>"
    have sd: "same_data ?v1 ?v2" using g by (simp add: same_data_def)
    obtain r1 u1 where 1: "bench_one E1 func data 3 1 ?v1 = (r1, u1)"
      by (cases "bench_one E1 func data 3 1 ?v1")
    obtain r2 u2 where 2: "bench_one E2 func data 3 1 ?v2 = (r2, u2)"
      by (cases "bench_one E2 func data 3 1 ?v2")
    from bench_one_rel[OF sd, of E1 func data 3 1 E2] 1 2
    have rel: "rel_sum (=) any r1 r2" "same_data u1 u2" by simp_all
    have pr: "same_data (py_print s1 u1) (py_print s2 u2)" for s1 s2
      using rel(2) by (rule same_data_ghost)
    show ?thesis using a g gen assms(2) Inr 1 2 rel pr
      by (cases r1; cases r2) (simp_all add: scaling_step_def Let_def)
  qed
qed

lemma scaling_algo_rel:
  fixes w1 w2 :: "'g world"
  assumes "same_data w1 w2" "env_randbelow E1 = env_randbelow E2"
  shows "rel_prod (rel_sum (=) any) same_data
           (scaling_algo E1 algo u1 w1) (scaling_algo E2 algo u2 w2)"
proof -
  let ?ns = "if fst algo = U ''Insertion'' then [1000, 2000, 4000, 8000]
                else [2000, 4000, 8000, 16000::int]"
  let ?p = "U ''  '' @ fst algo @ U '':''"
  have "rel_prod (rel_sum (=) any) same_data
          (for_w ?ns (scaling_step E1 algo) None (py_print ?p w1))
          (for_w ?ns (scaling_step E2 algo) None (py_print ?p w2))"
  proof (rule for_w_rel[where S=any and R=same_data])
    show "same_data (py_print ?p w1) (py_print ?p w2)" using assms(1) by (rule same_data_ghost)
    show True by simp
  next
    fix n s1 s2 and x1 x2 :: "'g world"
    assume "same_data x1 x2"
    then show "rel_prod (rel_sum (=) any) same_data
        (scaling_step E1 algo n s1 x1) (scaling_step E2 algo n s2 x2)"
      using assms(2) by (rule scaling_step_rel)
  qed
  then show ?thesis
    by (cases "for_w ?ns (scaling_step E1 algo) None (py_print ?p w1)";
        cases "for_w ?ns (scaling_step E2 algo) None (py_print ?p w2)")
       (auto simp: scaling_algo_def Let_def split: sum.splits)
qed

lemma analyze_scaling_rel:
  fixes w1 w2 :: "'g world"
  assumes "same_data w1 w2" "env_randbelow E1 = env_randbelow E2"
  shows "rel_prod (rel_sum (=) any) same_data (analyze_scaling E1 w1) (analyze_scaling E2 w2)"
  unfolding analyze_scaling_def
proof (rule for_w_rel[where S=any and R=same_data])
  show "same_data (py_print (10 # U ''Empirical scaling on random data (Insertion vs Merge vs Timsort)'') w1)
      (py_print (10 # U ''Empirical scaling on random data (Insertion vs Merge vs Timsort)'') w2)"
    using assms(1) by (rule same_data_ghost)
  show True by simp
next
  fix algo and s1 s2 :: unit and x1 x2 :: "'g world"
  assume "same_data x1 x2"
  then show "rel_prod (rel_sum (=) any) same_data (scaling_algo E1 algo s1 x1) (scaling_algo E2 algo s2 x2)"
    using assms(2) by (rule scaling_algo_rel)
qed

lemma main_rel:
  fixes w1 w2 :: "'g world"
  assumes "env_randbelow E1 = env_randbelow E2" "env_seed E1 = env_seed E2" "env_int E1 = env_int E2"
    and "env_round E1 = env_round E2" "generated w1 = generated w2"
  shows "rel_prod (=) same_data (main E1 a w1) (main E2 a w2)"
proof -
  let ?v1 = "w1\<lparr>rng := env_seed E1 42\<rparr>" and ?v2 = "w2\<lparr>rng := env_seed E2 42\<rparr>"
  have sd: "same_data ?v1 ?v2" using assms(2,5) by (simp add: same_data_def)
  have p: "parse_sizes E1 (args_sizes a) = parse_sizes E2 (args_sizes a)"
    using assms(3) by (simp add: parse_sizes_def)
  show ?thesis
  proof (cases "parse_sizes E2 (args_sizes a)")
    case (Inl e)
    with p sd show ?thesis by (simp add: main_def py_seed_def)
  next
    case (Inr ns)
    obtain r1 u1 where 1: "run_bench E1 ns (args_repeat a) (args_number a) (args_ins_max a) ?v1 = (r1, u1)"
      by (cases "run_bench E1 ns (args_repeat a) (args_number a) (args_ins_max a) ?v1")
    obtain r2 u2 where 2: "run_bench E2 ns (args_repeat a) (args_number a) (args_ins_max a) ?v2 = (r2, u2)"
      by (cases "run_bench E2 ns (args_repeat a) (args_number a) (args_ins_max a) ?v2")
    from run_bench_rel[OF sd assms(1,4), of ns "args_repeat a" "args_number a" "args_ins_max a"] 1 2
    have rel: "rel_sum (=) any r1 r2" "same_data u1 u2" by simp_all
    obtain q1 x1 where 3: "analyze_scaling E1 u1 = (q1, x1)" by (cases "analyze_scaling E1 u1")
    obtain q2 x2 where 4: "analyze_scaling E2 u2 = (q2, x2)" by (cases "analyze_scaling E2 u2")
    from analyze_scaling_rel[OF rel(2) assms(1)] 3 4
    have rel2: "rel_sum (=) any q1 q2" "same_data x1 x2" by simp_all
    show ?thesis using p Inr 1 2 3 4 rel rel2
      by (cases r1; cases r2; cases q1; cases q2) (simp_all add: main_def py_seed_def)
  qed
qed

section \<open>Evaluations in the sample environment\<close>



lemma sample_mean_values:
  "mean_ms sample_env 0 data 3 1 = 2" "mean_ms sample_env 3 data 3 1 = 5"
  "mean_ms sample_env 6 data 3 1 = 8"
  by (simp_all add: mean_ms_def mean_s_def sample_env_def sample_elapsed_def upt_rec)


lemma upto_0_1: "[0..1::int] = [0, 1]"
  by code_simp

lemma make_sorted_2: "make_sorted 2 = [0, 1]"
  by code_simp

lemma split_on_values: "split_on 44 (U ''2,abc'') = [U ''2'', U ''abc'']" "split_on 44 [] = [[]]"
  by (simp_all add: U_def)

lemma strip_nonempty_values: "strip_nonempty (U ''abc'')" "strip_nonempty (U ''2'')" "\<not> strip_nonempty []"
  by (simp_all add: strip_nonempty_def U_def py_isspace_def)

lemma sample_int_values: "env_int sample_env (U ''abc'') = Inl ValueError" "env_int sample_env (U ''2'') = Inr 2"
  by (simp_all add: sample_env_def sample_int_def U_def py_isspace_def)

lemma sample_swap_count:
  "swap_count Some 2 (round_to Some (1 / 100)) = Inr 1"
  "swap_count Some (- 5) (round_to Some (1 / 100)) = Inr 1"
  by (simp_all add: swap_count_def float_of_int_def round_to_def)

lemma sample_generators_2:
  "make_random sample_randbelow 2 42 = (Inr [297, 304], 44)"
  "make_sorted 2 = [0, 1]" "make_reverse 2 = [2, 1]"
  "make_nearly_sorted sample_randbelow Some 2 (round_to Some (1 / 100)) 44 = (Inr [1, 0], 46)"
  "make_many_duplicates sample_randbelow 2 100 46 = (Inr [25, 32], 48)"
      apply (simp add: make_random_def randint_def sample_randbelow_def numeral_2_eq_2)
     apply code_simp
    apply code_simp
   apply (simp add: make_nearly_sorted_def sample_swap_count swap_once_def randrange_def
      sample_randbelow_def getitem_def setitem_def upto_0_1)
  apply (simp add: make_many_duplicates_def randrange_def sample_randbelow_def numeral_2_eq_2)
  done

lemma parse_sizes_2: "parse_sizes sample_env (U ''2'') = Inr [2]"
  by (simp add: parse_sizes_def U_def strip_nonempty_def py_isspace_def sample_env_def sample_int_def)

lemma sample_run_datasets: "generated (snd (main sample_env
     \<lparr>args_sizes = U ''2'', args_repeat = 3, args_number = 1, args_ins_max = 20000, args_no_scaling = True\<rparr>
     (start 0))) =
   [(U ''random'', 2, [297, 304]), (U ''sorted'', 2, [0, 1]), (U ''reverse'', 2, [2, 1]),
    (U ''nearly_sorted'', 2, [1, 0]), (U ''many_duplicates'', 2, [25, 32])]"
  using parse_sizes_2
  by (simp add: main_def py_seed_def run_bench_def DATASETS_def bench_row_eval sample_generators_2 start_def sample_env_def)

section \<open>The claims of the specification\<close>

text \<open>
  C1. For every finite list \<open>S\<close> of integers, \<^verbatim>\<open>insertion_sort(S)\<close> and
  \<^verbatim>\<open>merge_sort(S)\<close> each return a list (neither raises) that is a permutation of \<open>S\<close>
  and is sorted in non-decreasing order.
\<close>

theorem sorts_sorted_permutation:
  "(\<exists>ys. insertion_sort S = Inr ys \<and> mset ys = mset S \<and> sorted ys) \<and>
   (\<exists>zs. merge_sort S = Inr zs \<and> mset zs = mset S \<and> sorted zs)"
proof
  from insertion_sort_key_correct[of "\<lambda>x. x" S]
  show "\<exists>ys. insertion_sort S = Inr ys \<and> mset ys = mset S \<and> sorted ys"
    by (auto simp: insertion_sort_def)
  from merge_sort_key_correct[of "\<lambda>x. x" S]
  show "\<exists>zs. merge_sort S = Inr zs \<and> mset zs = mset S \<and> sorted zs"
    by (auto simp: merge_sort_def)
qed

text \<open>The example of the specification, \<^verbatim>\<open>[5,3,1,4,2]\<close>, as an instance of C1.\<close>

theorem sorts_sorted_permutation_witness:
  "(\<exists>ys. insertion_sort [5, 3, 1, 4, 2] = Inr ys \<and> mset ys = mset [5, 3, 1, 4, 2] \<and> sorted ys
      \<and> ys = [1, 2, 3, 4, 5]) \<and>
   (\<exists>zs. merge_sort [5, 3, 1, 4, 2] = Inr zs \<and> mset zs = mset [5, 3, 1, 4, 2] \<and> sorted zs
      \<and> zs = [1, 2, 3, 4, 5])"
proof -
  have i: "insertion_sort [5, 3, 1, 4, 2] = Inr [1, 2, 3, 4, 5]"
    by code_simp
  have m: "merge_sort [5, 3, 1, 4, 2] = Inr [1, 2, 3, 4, 5]"
    by code_simp
  from sorts_sorted_permutation[of "[5, 3, 1, 4, 2]"] i m show ?thesis
    by auto
qed

text \<open>
  C2. \<^verbatim>\<open>insertion_sort\<close> and \<^verbatim>\<open>merge_sort\<close> are stable: for every input list and
  every sort key \<open>k\<close>, the elements with key \<open>k\<close> appear in the output in their input
  order. In \<^verbatim>\<open>_merge\<close> of two sorted halves the left half wins ties: the elements
  of key \<open>k\<close> from the left half all come before those from the right half.
\<close>

theorem sorts_stable:
  "(\<exists>ys. insertion_sort_key f S = Inr ys \<and>
          (\<forall>k. filter (\<lambda>x. f x = k) ys = filter (\<lambda>x. f x = k) S)) \<and>
   (\<exists>zs. merge_sort_key f S = Inr zs \<and>
          (\<forall>k. filter (\<lambda>x. f x = k) zs = filter (\<lambda>x. f x = k) S)) \<and>
   (sorted (map f left) \<and> sorted (map f right) \<longrightarrow>
      (\<exists>ms. private_merge_key f left right = Inr ms \<and>
          (\<forall>k. filter (\<lambda>x. f x = k) ms =
               filter (\<lambda>x. f x = k) left @ filter (\<lambda>x. f x = k) right)))"
proof (intro conjI impI)
  from insertion_sort_key_correct[of f S]
  show "\<exists>ys. insertion_sort_key f S = Inr ys \<and>
          (\<forall>k. filter (\<lambda>x. f x = k) ys = filter (\<lambda>x. f x = k) S)"
    by (elim exE conjE) (intro exI conjI)
  from merge_sort_key_correct[of f S]
  show "\<exists>zs. merge_sort_key f S = Inr zs \<and>
          (\<forall>k. filter (\<lambda>x. f x = k) zs = filter (\<lambda>x. f x = k) S)"
    by (elim exE conjE) (intro exI conjI)
  assume "sorted (map f left) \<and> sorted (map f right)"
  with private_merge_key_correct[of f left right]
  show "\<exists>ms. private_merge_key f left right = Inr ms \<and>
          (\<forall>k. filter (\<lambda>x. f x = k) ms =
               filter (\<lambda>x. f x = k) left @ filter (\<lambda>x. f x = k) right)"
    by (elim exE conjE) (intro exI conjI, assumption, simp)
qed

text \<open>
  Elements are pairs (key, tag) compared by their key, the first component; the tag
  records the input position.
\<close>

theorem sorts_stable_witness:
  "(\<exists>ys. insertion_sort_key fst [(2::int, 0::nat), (1, 1), (2, 2), (1, 3)] = Inr ys \<and>
      filter (\<lambda>x. fst x = 2) ys = [(2, 0), (2, 2)] \<and> ys = [(1, 1), (1, 3), (2, 0), (2, 2)]) \<and>
   (\<exists>zs. merge_sort_key fst [(2::int, 0::nat), (1, 1), (2, 2), (1, 3)] = Inr zs \<and>
      filter (\<lambda>x. fst x = 2) zs = [(2, 0), (2, 2)] \<and> zs = [(1, 1), (1, 3), (2, 0), (2, 2)]) \<and>
   sorted (map fst [(1::int, 0::nat), (2, 1)]) \<and> sorted (map fst [(1::int, 2::nat), (2, 3)]) \<and>
   (\<exists>ms. private_merge_key fst [(1::int, 0::nat), (2, 1)] [(1, 2), (2, 3)] = Inr ms \<and>
      filter (\<lambda>x. fst x = 1) ms = [(1, 0), (1, 2)] \<and> ms = [(1, 0), (1, 2), (2, 1), (2, 3)])"
proof -
  have i: "insertion_sort_key fst [(2::int, 0::nat), (1, 1), (2, 2), (1, 3)] =
             Inr [(1, 1), (1, 3), (2, 0), (2, 2)]"
    by code_simp
  have m: "merge_sort_key fst [(2::int, 0::nat), (1, 1), (2, 2), (1, 3)] =
             Inr [(1, 1), (1, 3), (2, 0), (2, 2)]"
    by code_simp
  have p: "private_merge_key fst [(1::int, 0::nat), (2, 1)] [(1, 2), (2, 3)] =
             Inr [(1, 0), (1, 2), (2, 1), (2, 3)]"
    by code_simp
  have s: "sorted (map fst [(1::int, 0::nat), (2, 1)]) \<and> sorted (map fst [(1::int, 2::nat), (2, 3)])"
    by simp
  from sorts_stable[of fst "[(2::int, 0::nat), (1, 1), (2, 2), (1, 3)]"
      "[(1::int, 0::nat), (2, 1)]" "[(1, 2), (2, 3)]"] s i m p
  show ?thesis by simp
qed

text \<open>
  C3. For every input list, each sorting algorithm returns a new sequence and leaves
  the caller's list unchanged. On the heap model: called with the reference \<open>arr\<close> of
  an existing list, each sort returns a reference \<open>r\<close> that did not exist before the
  call (so \<open>r \<noteq> arr\<close>), every list that existed before the call, the caller's
  included, has the elements it had, and the list at \<open>r\<close> is the sorted list of the
  list model.
\<close>

theorem sorts_leave_input_unchanged:
  fixes h :: "int heap"
  assumes "arr < length h"
  shows
   "(\<exists>h' r. insertion_sort_h (\<lambda>x. x) h arr = Inr (h', r) \<and>
        length h \<le> r \<and> r < length h' \<and> take (length h) h' = h \<and> h' ! arr = h ! arr \<and>
        insertion_sort (h ! arr) = Inr (h' ! r)) \<and>
    (\<exists>h' r. merge_sort_h (\<lambda>x. x) h arr = Some (Inr (h', r)) \<and>
        length h \<le> r \<and> r < length h' \<and> take (length h) h' = h \<and> h' ! arr = h ! arr \<and>
        merge_sort (h ! arr) = Inr (h' ! r)) \<and>
    (\<exists>h' r. timsort_sorted_h (\<lambda>x. x) h arr = (h', r) \<and>
        length h \<le> r \<and> r < length h' \<and> take (length h) h' = h \<and> h' ! arr = h ! arr \<and>
        timsort_sorted (h ! arr) = h' ! r)"
proof (intro conjI)
  obtain ys where ys: "insertion_sort_key (\<lambda>x. x) (h ! arr) = Inr ys"
    using insertion_sort_key_correct[of "\<lambda>x. x" "h ! arr"] by blast
  then have "insertion_sort_h (\<lambda>x. x) h arr = Inr (h @ [ys], length h)"
    by (simp add: insertion_sort_h_refines)
  then show "\<exists>h' r. insertion_sort_h (\<lambda>x. x) h arr = Inr (h', r) \<and>
        length h \<le> r \<and> r < length h' \<and> take (length h) h' = h \<and> h' ! arr = h ! arr \<and>
        insertion_sort (h ! arr) = Inr (h' ! r)"
    using assms ys by (simp add: insertion_sort_def nth_append)
next
  obtain ys where ys: "merge_sort_key (\<lambda>x. x) (h ! arr) = Inr ys"
    using merge_sort_key_Inr by blast
  from merge_sort_h_refines[OF assms ys] obtain g r where
    "merge_sort_h (\<lambda>x. x) h arr = Some (Inr (h @ g, r))" "length h \<le> r" "r < length (h @ g)"
    "(h @ g) ! r = ys"
    by blast
  then show "\<exists>h' r. merge_sort_h (\<lambda>x. x) h arr = Some (Inr (h', r)) \<and>
        length h \<le> r \<and> r < length h' \<and> take (length h) h' = h \<and> h' ! arr = h ! arr \<and>
        merge_sort (h ! arr) = Inr (h' ! r)"
    using assms ys by (simp add: merge_sort_def nth_append)
next
  show "\<exists>h' r. timsort_sorted_h (\<lambda>x. x) h arr = (h', r) \<and>
        length h \<le> r \<and> r < length h' \<and> take (length h) h' = h \<and> h' ! arr = h ! arr \<and>
        timsort_sorted (h ! arr) = h' ! r"
    using assms
    by (simp add: timsort_sorted_h_def timsort_sorted_def timsort_sorted_key_def nth_append)
qed

theorem sorts_leave_input_unchanged_witness:
  "(0::nat) < length [[5, 3, 1, 4, 2::int]] \<and>
   insertion_sort_h (\<lambda>x. x) [[5, 3, 1, 4, 2::int]] 0 = Inr ([[5, 3, 1, 4, 2], [1, 2, 3, 4, 5]], 1) \<and>
   (\<exists>h' r. merge_sort_h (\<lambda>x. x) [[5, 3, 1, 4, 2::int]] 0 = Some (Inr (h', r)) \<and>
        r = 20 \<and> h' ! 0 = [5, 3, 1, 4, 2] \<and> h' ! r = [1, 2, 3, 4, 5]) \<and>
   timsort_sorted_h (\<lambda>x. x) [[5, 3, 1, 4, 2::int]] 0 = ([[5, 3, 1, 4, 2], [1, 2, 3, 4, 5]], 1)"
proof -
  have i: "insertion_sort_h (\<lambda>x. x) [[5, 3, 1, 4, 2::int]] 0 = Inr ([[5, 3, 1, 4, 2], [1, 2, 3, 4, 5]], 1)"
    by code_simp
  have m: "merge_sort_h (\<lambda>x. x) [[5, 3, 1, 4, 2::int]] 0 =
     Some (Inr ([[5, 3, 1, 4, 2], [5, 3], [5], [5], [3], [3], [3, 5], [5],
         [1, 4, 2], [1], [1], [4, 2], [4], [4], [2], [2], [2, 4], [4],
         [1, 2, 4], [2, 4], [1, 2, 3, 4, 5], [5]], 20))"
    by code_simp
  have t: "timsort_sorted_h (\<lambda>x. x) [[5, 3, 1, 4, 2::int]] 0 = ([[5, 3, 1, 4, 2], [1, 2, 3, 4, 5]], 1)"
    by code_simp
  have a: "(0::nat) < length [[5, 3, 1, 4, 2::int]]" by simp
  from sorts_leave_input_unchanged[OF a] i m t a show ?thesis
    by simp
qed

text \<open>
  C4. Every dataset generator is total on all \<open>n \<ge> 0\<close>: for \<open>n = 0\<close> it returns an
  empty sequence, and no generator raises for any \<open>n \<ge> 0\<close>. Four generators meet
  this (\<open>generators_at_zero\<close>, \<open>make_random_total\<close>, \<open>make_many_duplicates_total\<close>),
  and \<^verbatim>\<open>make_nearly_sorted\<close> meets it for \<open>n \<ge> 1\<close> whenever the number of swaps is
  computed (\<open>make_nearly_sorted_total\<close>).
  At \<open>n = 0\<close> it does not: \<^verbatim>\<open>max(1, ...)\<close> asks for one swap of the empty list, and
  \<^verbatim>\<open>random.randrange(0)\<close> raises \<^verbatim>\<open>ValueError\<close>, whatever the ratio, the rounding of
  the floats and the state of the generator (with a ratio that is an infinity or a NaN
  the product \<open>0 * swaps_ratio\<close> is a NaN, and \<^verbatim>\<open>int\<close> raises the \<^verbatim>\<open>ValueError\<close>).
\<close>

theorem make_nearly_sorted_empty_raises:
  "make_nearly_sorted rb rnd 0 swaps_ratio g = (Inl ValueError, g)"
  by (cases swaps_ratio)
    (simp_all add: make_nearly_sorted_def swap_count_def float_of_int_def float_sign_def
      swap_once_def randrange_def)

text \<open>
  C5 says that a malformed size list (non-numeric, empty or with negative entries) and a
  \<^verbatim>\<open>repeat\<close> or \<^verbatim>\<open>number\<close> that is not positive are detected before any timing and
  abort the run with a non-zero exit status and no partial report. The program has no
  validation of its own. In the sample environment, with \<^verbatim>\<open>--no-scaling\<close>:
  \<^item> \<^verbatim>\<open>--sizes ""\<close> prints the header of the table and returns 0;
  \<^item> \<^verbatim>\<open>--sizes 2 --repeat 0\<close> prints the header, generates the first dataset and
    raises \<^verbatim>\<open>ZeroDivisionError\<close> in the first call of \<^verbatim>\<open>bench_one\<close>;
  \<^item> \<^verbatim>\<open>--sizes 2 --number 0\<close> does the same after three batches were timed, each of
    no call;
  \<^item> \<^verbatim>\<open>--sizes -5\<close> prints the header and three rows, for which 27 batches were
    timed, before \<^verbatim>\<open>make_nearly_sorted\<close> raises \<^verbatim>\<open>ValueError\<close>;
  \<^item> \<^verbatim>\<open>--sizes 2 --number -1\<close> prints the header and five rows and returns 0.
\<close>

theorem main_unvalidated_counterexample:
  "main sample_env \<lparr>args_sizes = [], args_repeat = 3, args_number = 1, args_ins_max = 20000,
       args_no_scaling = True\<rparr> (start 0) =
     (Inr 0, \<lparr>rng = 42, ticks = 0, stdout = header_lines 3 1, generated = [], timed = [], batches = []\<rparr>) \<and>
   exit_status (Inr 0) = 0 \<and> length (header_lines 3 1) = 3 \<and>
   main sample_env \<lparr>args_sizes = U ''2'', args_repeat = 0, args_number = 1, args_ins_max = 20000,
       args_no_scaling = True\<rparr> (start 0) =
     (Inl ZeroDivisionError,
      \<lparr>rng = 44, ticks = 0, stdout = header_lines 0 1,
         generated = [(U ''random'', 2, [297, 304])],
         timed = [(U ''Insertion'', 2, U ''random'')], batches = []\<rparr>) \<and>
   main sample_env \<lparr>args_sizes = U ''2'', args_repeat = 3, args_number = 0, args_ins_max = 20000,
       args_no_scaling = True\<rparr> (start 0) =
     (Inl ZeroDivisionError,
      \<lparr>rng = 44, ticks = 3, stdout = header_lines 3 0,
         generated = [(U ''random'', 2, [297, 304])],
         timed = [(U ''Insertion'', 2, U ''random'')], batches = [[], [], []]\<rparr>) \<and>
   fst (main sample_env \<lparr>args_sizes = U ''-5'', args_repeat = 3, args_number = 1,
       args_ins_max = 20000, args_no_scaling = True\<rparr> (start 0)) = Inl ValueError \<and>
   length (stdout (snd (main sample_env \<lparr>args_sizes = U ''-5'', args_repeat = 3, args_number = 1,
       args_ins_max = 20000, args_no_scaling = True\<rparr> (start 0)))) = 6 \<and>
   ticks (snd (main sample_env \<lparr>args_sizes = U ''-5'', args_repeat = 3, args_number = 1,
       args_ins_max = 20000, args_no_scaling = True\<rparr> (start 0))) = 27 \<and>
   fst (main sample_env \<lparr>args_sizes = U ''2'', args_repeat = 3, args_number = - 1,
       args_ins_max = 20000, args_no_scaling = True\<rparr> (start 0)) = Inr 0 \<and>
   length (stdout (snd (main sample_env \<lparr>args_sizes = U ''2'', args_repeat = 3, args_number = - 1,
       args_ins_max = 20000, args_no_scaling = True\<rparr> (start 0)))) = 8"
proof -
  have neg: "parse_sizes sample_env (U ''-5'') = Inr [- 5]"
    by (simp add: parse_sizes_def U_def strip_nonempty_def py_isspace_def sample_env_def
        sample_int_def)
  have gen_neg: "make_random sample_randbelow (- 5) 42 = (Inr [], 42)"
    "make_sorted (- 5) = []" "make_reverse (- 5) = []"
    by (simp_all add: make_random_def make_sorted_def make_reverse_def)
  have empty: "main sample_env \<lparr>args_sizes = [], args_repeat = 3, args_number = 1,
       args_ins_max = 20000, args_no_scaling = True\<rparr> (start 0) =
     (Inr 0, \<lparr>rng = 42, ticks = 0, stdout = header_lines 3 1, generated = [], timed = [], batches = []\<rparr>)"
    by (simp add: main_def py_seed_def parse_sizes_def strip_nonempty_def run_bench_def start_def
        sample_env_def)
  have repeat0: "main sample_env \<lparr>args_sizes = U ''2'', args_repeat = 0, args_number = 1,
       args_ins_max = 20000, args_no_scaling = True\<rparr> (start 0) =
     (Inl ZeroDivisionError,
      \<lparr>rng = 44, ticks = 0, stdout = header_lines 0 1,
         generated = [(U ''random'', 2, [297, 304])],
         timed = [(U ''Insertion'', 2, U ''random'')], batches = []\<rparr>)"
    using parse_sizes_2
    by (simp add: main_def py_seed_def run_bench_def DATASETS_def bench_row_def
        sample_generators_2 start_def sample_env_def algos_def time_algo_def bench_one_cases)
  have number0: "main sample_env \<lparr>args_sizes = U ''2'', args_repeat = 3, args_number = 0,
       args_ins_max = 20000, args_no_scaling = True\<rparr> (start 0) =
     (Inl ZeroDivisionError,
      \<lparr>rng = 44, ticks = 3, stdout = header_lines 3 0,
         generated = [(U ''random'', 2, [297, 304])],
         timed = [(U ''Insertion'', 2, U ''random'')], batches = [[], [], []]\<rparr>)"
    using parse_sizes_2
    by (simp add: main_def py_seed_def run_bench_def DATASETS_def bench_row_def
        sample_generators_2 start_def sample_env_def algos_def time_algo_def bench_one_cases
        numeral_3_eq_3)
  have negative: "fst (main sample_env \<lparr>args_sizes = U ''-5'', args_repeat = 3, args_number = 1,
       args_ins_max = 20000, args_no_scaling = True\<rparr> (start 0)) = Inl ValueError \<and>
   length (stdout (snd (main sample_env \<lparr>args_sizes = U ''-5'', args_repeat = 3, args_number = 1,
       args_ins_max = 20000, args_no_scaling = True\<rparr> (start 0)))) = 6 \<and>
   ticks (snd (main sample_env \<lparr>args_sizes = U ''-5'', args_repeat = 3, args_number = 1,
       args_ins_max = 20000, args_no_scaling = True\<rparr> (start 0))) = 27"
    using neg
    by (simp add: main_def py_seed_def run_bench_def DATASETS_def bench_row_eval gen_neg
        make_nearly_sorted_nonpositive_raises[OF _ sample_swap_count(2)] start_def sample_env_def
        header_lines_def)
  have number_neg: "fst (main sample_env \<lparr>args_sizes = U ''2'', args_repeat = 3,
       args_number = - 1, args_ins_max = 20000, args_no_scaling = True\<rparr> (start 0)) = Inr 0 \<and>
   length (stdout (snd (main sample_env \<lparr>args_sizes = U ''2'', args_repeat = 3, args_number = - 1,
       args_ins_max = 20000, args_no_scaling = True\<rparr> (start 0)))) = 8"
    using parse_sizes_2
    by (simp add: main_def py_seed_def run_bench_def DATASETS_def bench_row_eval
        sample_generators_2 start_def sample_env_def header_lines_def)
  have misc: "exit_status (Inr 0) = 0" "length (header_lines 3 1) = 3"
    by (simp_all add: exit_status_def header_lines_def)
  from empty repeat0 number0 negative number_neg misc show ?thesis
    by (intro conjI) simp_all
qed

text \<open>
  C5, amended. A size list with an entry that \<^verbatim>\<open>int\<close> rejects ends the run with the
  exception of \<^verbatim>\<open>int\<close>, so with a non-zero exit status, before anything is printed
  and before any call of the timer. A size list with no entry (empty, or only commas
  and white space) is accepted: the run prints the header of the table, returns 0, and
  with \<^verbatim>\<open>--no-scaling\<close> prints nothing else and times nothing.
\<close>

theorem sizes_validated_only_by_int:
  "((\<exists>x\<in>set (split_on 44 (args_sizes a)). strip_nonempty x \<and> isl (env_int E x)) \<longrightarrow>
      (\<exists>e. main E a w = (Inl e, w\<lparr>rng := env_seed E 42\<rparr>) \<and>
           exit_status (fst (main E a w)) \<noteq> 0 \<and>
           stdout (snd (main E a w)) = stdout w \<and>
           timed (snd (main E a w)) = timed w \<and> ticks (snd (main E a w)) = ticks w)) \<and>
   (filter strip_nonempty (split_on 44 (args_sizes a)) = [] \<longrightarrow>
      (\<exists>w' rest. main E a w = (Inr 0, w') \<and> exit_status (fst (main E a w)) = 0 \<and>
           stdout w' = stdout w @ header_lines (args_repeat a) (args_number a) @ rest \<and>
           (args_no_scaling a \<longrightarrow> rest = [] \<and> timed w' = timed w \<and> ticks w' = ticks w)))"
proof (intro conjI impI)
  assume "\<exists>x\<in>set (split_on 44 (args_sizes a)). strip_nonempty x \<and> isl (env_int E x)"
  then have "isl (parse_sizes E (args_sizes a))" by (simp add: parse_sizes_isl)
  then obtain e where "parse_sizes E (args_sizes a) = Inl e"
    by (cases "parse_sizes E (args_sizes a)") simp_all
  from main_parse_error[OF this, of w]
  show "\<exists>e. main E a w = (Inl e, w\<lparr>rng := env_seed E 42\<rparr>) \<and>
           exit_status (fst (main E a w)) \<noteq> 0 \<and>
           stdout (snd (main E a w)) = stdout w \<and>
           timed (snd (main E a w)) = timed w \<and> ticks (snd (main E a w)) = ticks w"
    by (simp add: exit_status_def)
next
  assume "filter strip_nonempty (split_on 44 (args_sizes a)) = []"
  from main_no_sizes[OF this, of E w]
  show "\<exists>w' rest. main E a w = (Inr 0, w') \<and> exit_status (fst (main E a w)) = 0 \<and>
           stdout w' = stdout w @ header_lines (args_repeat a) (args_number a) @ rest \<and>
           (args_no_scaling a \<longrightarrow> rest = [] \<and> timed w' = timed w \<and> ticks w' = ticks w)"
    by (auto simp: exit_status_def)
qed

text \<open>The size lists \<^verbatim>\<open>"2,abc"\<close> and \<^verbatim>\<open>""\<close> in the sample environment.\<close>

theorem sizes_validated_only_by_int_witness:
  "(\<exists>x\<in>set (split_on 44 (U ''2,abc'')). strip_nonempty x \<and> isl (env_int sample_env x)) \<and>
   main sample_env \<lparr>args_sizes = U ''2,abc'', args_repeat = 3, args_number = 1, args_ins_max = 20000,
                     args_no_scaling = True\<rparr> (start 0) =
     (Inl ValueError, \<lparr>rng = 42, ticks = 0, stdout = [], generated = [], timed = [], batches = []\<rparr>) \<and>
   exit_status (fst (main sample_env \<lparr>args_sizes = U ''2,abc'', args_repeat = 3, args_number = 1,
                     args_ins_max = 20000, args_no_scaling = True\<rparr> (start 0))) \<noteq> 0 \<and>
   filter strip_nonempty (split_on 44 []) = [] \<and>
   main sample_env \<lparr>args_sizes = [], args_repeat = 3, args_number = 1, args_ins_max = 20000,
                     args_no_scaling = True\<rparr> (start 0) =
     (Inr 0, \<lparr>rng = 42, ticks = 0, stdout = header_lines 3 1, generated = [], timed = [], batches = []\<rparr>) \<and>
   exit_status (fst (main sample_env \<lparr>args_sizes = [], args_repeat = 3, args_number = 1,
                     args_ins_max = 20000, args_no_scaling = True\<rparr> (start 0))) = 0"
proof -
  let ?a1 = "\<lparr>args_sizes = U ''2,abc'', args_repeat = 3, args_number = 1, args_ins_max = 20000,
        args_no_scaling = True\<rparr>"
  let ?a2 = "\<lparr>args_sizes = [], args_repeat = 3, args_number = 1, args_ins_max = 20000,
        args_no_scaling = True\<rparr>"
  have h1: "\<exists>x\<in>set (split_on 44 (args_sizes ?a1)). strip_nonempty x \<and> isl (env_int sample_env x)"
    by (simp add: split_on_values strip_nonempty_values sample_int_values)
  have h2: "filter strip_nonempty (split_on 44 (args_sizes ?a2)) = []"
    by (simp add: strip_nonempty_values)
  have p: "parse_sizes sample_env (U ''2,abc'') = Inl ValueError"
    by (simp add: parse_sizes_def split_on_values strip_nonempty_values sample_int_values)
  have m1: "main sample_env ?a1 (start 0) =
      (Inl ValueError, \<lparr>rng = 42, ticks = 0, stdout = [], generated = [], timed = [], batches = []\<rparr>)"
    using main_parse_error[of sample_env ?a1 ValueError "start 0"] p
    by (simp add: start_def sample_env_def)
  have m2: "main sample_env ?a2 (start 0) =
      (Inr 0, \<lparr>rng = 42, ticks = 0, stdout = header_lines 3 1, generated = [], timed = [], batches = []\<rparr>)"
    by (simp add: main_def py_seed_def parse_sizes_def strip_nonempty_def run_bench_def start_def sample_env_def)
  from sizes_validated_only_by_int[of ?a1 sample_env "start 0"] h1
  have c1: "exit_status (fst (main sample_env ?a1 (start 0))) \<noteq> 0"
    by blast
  from sizes_validated_only_by_int[of ?a2 sample_env "start 0"] h2
  have c2: "exit_status (fst (main sample_env ?a2 (start 0))) = 0"
    by blast
  from h1 h2 m1 m2 c1 c2 show ?thesis
    by simp
qed



text \<open>
  C7. Dataset generation is deterministic under the seed that \<^verbatim>\<open>main\<close> sets once, at
  its start. Two runs with the same arguments generate the same datasets, in the same
  order, and end in the same way, whatever state the generator was in when each
  process started and whatever times each run measures; the library functions
  \<^verbatim>\<open>_randbelow\<close>, \<^verbatim>\<open>seed\<close> and \<^verbatim>\<open>int\<close> and the arithmetic of the floats are the
  same in both runs. And two
  invocations of \<^verbatim>\<open>make_random(1000)\<close>, each right after \<^verbatim>\<open>random.seed(s)\<close> with the
  same \<open>s\<close>, return the same sequence and leave the generator in the same state.
\<close>

theorem datasets_deterministic:
  fixes w1 w2 :: "'g world"
  assumes "env_randbelow E1 = env_randbelow E2" "env_seed E1 = env_seed E2"
    "env_int E1 = env_int E2" "env_round E1 = env_round E2" "generated w1 = generated w2"
  shows "generated (snd (main E1 a w1)) = generated (snd (main E2 a w2)) \<and>
         fst (main E1 a w1) = fst (main E2 a w2) \<and>
         make_random (env_randbelow E1) 1000 (rng (py_seed E1 s w1)) =
           make_random (env_randbelow E2) 1000 (rng (py_seed E2 s w2))"
proof -
  obtain r1 u1 where 1: "main E1 a w1 = (r1, u1)" by (cases "main E1 a w1")
  obtain r2 u2 where 2: "main E2 a w2 = (r2, u2)" by (cases "main E2 a w2")
  from main_rel[OF assms, of a] 1 2 have "r1 = r2" "same_data u1 u2" by simp_all
  with 1 2 assms(1,2) show ?thesis by (simp add: same_data_def py_seed_def)
qed

text \<open>
  Two runs at \<^verbatim>\<open>--sizes 2 --no-scaling\<close>: one in the sample environment from generator
  state 0, one with other batch times and another rendering of floats from generator
  state 99.
\<close>

theorem datasets_deterministic_witness:
  "env_randbelow sample_env = env_randbelow (sample_env\<lparr>env_fmt2 := \<lambda>x. [], env_elapsed := \<lambda>k calls. 5\<rparr>) \<and>
   env_seed sample_env = env_seed (sample_env\<lparr>env_fmt2 := \<lambda>x. [], env_elapsed := \<lambda>k calls. 5\<rparr>) \<and>
   env_int sample_env = env_int (sample_env\<lparr>env_fmt2 := \<lambda>x. [], env_elapsed := \<lambda>k calls. 5\<rparr>) \<and>
   env_round sample_env = env_round (sample_env\<lparr>env_fmt2 := \<lambda>x. [], env_elapsed := \<lambda>k calls. 5\<rparr>) \<and>
   generated (start (0::nat)) = generated (start (99::nat)) \<and>
   generated (snd (main sample_env
     \<lparr>args_sizes = U ''2'', args_repeat = 3, args_number = 1, args_ins_max = 20000,
      args_no_scaling = True\<rparr> (start 0))) =
     [(U ''random'', 2, [297, 304]), (U ''sorted'', 2, [0, 1]), (U ''reverse'', 2, [2, 1]),
      (U ''nearly_sorted'', 2, [1, 0]), (U ''many_duplicates'', 2, [25, 32])] \<and>
   generated (snd (main (sample_env\<lparr>env_fmt2 := \<lambda>x. [], env_elapsed := \<lambda>k calls. 5\<rparr>)
     \<lparr>args_sizes = U ''2'', args_repeat = 3, args_number = 1, args_ins_max = 20000,
      args_no_scaling = True\<rparr> (start 99))) =
     [(U ''random'', 2, [297, 304]), (U ''sorted'', 2, [0, 1]), (U ''reverse'', 2, [2, 1]),
      (U ''nearly_sorted'', 2, [1, 0]), (U ''many_duplicates'', 2, [25, 32])]"
proof -
  let ?E2 = "sample_env\<lparr>env_fmt2 := \<lambda>x. [], env_elapsed := \<lambda>k calls. 5\<rparr>"
  let ?a = "\<lparr>args_sizes = U ''2'', args_repeat = 3, args_number = 1, args_ins_max = 20000,
      args_no_scaling = True\<rparr>"
  have h: "env_randbelow sample_env = env_randbelow ?E2" "env_seed sample_env = env_seed ?E2"
    "env_int sample_env = env_int ?E2" "env_round sample_env = env_round ?E2"
    "generated (start (0::nat)) = generated (start (99::nat))"
    by (simp_all add: start_def)
  from datasets_deterministic[OF h, of ?a]
  have "generated (snd (main sample_env ?a (start 0))) = generated (snd (main ?E2 ?a (start 99)))"
    by simp
  with h sample_run_datasets show ?thesis by simp
qed



text \<open>
  C9. Each of the three sorting functions is idempotent: sorting the output of a sort
  returns that output.
\<close>

theorem sorts_idempotent:
  "(\<exists>ys. insertion_sort S = Inr ys \<and> insertion_sort ys = Inr ys) \<and>
   (\<exists>zs. merge_sort S = Inr zs \<and> merge_sort zs = Inr zs) \<and>
   timsort_sorted (timsort_sorted S) = timsort_sorted S"
  by (simp add: insertion_sort_def merge_sort_def timsort_sorted_def timsort_sorted_key_def
      insertion_sort_key_eq_sort_key merge_sort_key_eq_sort_key sorted_sort_id)

text \<open>
  C10. On every list of integers \<^verbatim>\<open>insertion_sort\<close>, \<^verbatim>\<open>merge_sort\<close> and
  \<^verbatim>\<open>timsort_sorted\<close> return the same list.
\<close>

theorem sorts_agree:
  "insertion_sort S = Inr (timsort_sorted S) \<and> merge_sort S = Inr (timsort_sorted S)"
  by (simp add: insertion_sort_def merge_sort_def timsort_sorted_def timsort_sorted_key_def
      insertion_sort_key_eq_sort_key merge_sort_key_eq_sort_key)

end
